theory Spec2Isabelle
  imports Main "HOL-Library.Word" "HOL-Library.AList"
begin

section \<open>Data model of the message crypto engine\<close>

text \<open>
  Byte slices. Go distinguishes the nil slice from an empty one and the engine tests
  slices against nil (\<open>d.dataKey != nil\<close>, \<open>decryptedData != nil\<close>), so a slice whose
  nil-ness is observed is a \<open>bytes option\<close> with \<open>None\<close> for nil. Where only the
  bytes matter (\<open>len\<close>, hashing, ciphering) the model passes \<open>content\<close>.
\<close>

type_synonym byte = "8 word"
type_synonym bytes = "byte list"
type_synonym slice = "bytes option"

definition content :: "slice \<Rightarrow> bytes" where
  "content s = (case s of None \<Rightarrow> [] | Some bs \<Rightarrow> bs)"

text \<open>The buffer \<open>make([]byte, n)\<close> after a read that wrote the bytes \<open>w\<close> into it.\<close>

definition fill :: "nat \<Rightarrow> bytes \<Rightarrow> bytes" where
  "fill n w = take n (w @ replicate n 0)"

text \<open>
  The error values of the package (its \<open>err...\<close> message constants), and \<open>LibError\<close>
  for an error value produced by the Go library or by the key reader.
\<close>

datatype error =
    ErrGeneratingNonce
  | ErrEmptyKeyNameOrKeyReader
  | ErrParseRSAPubKey
  | ErrParseRSAPriKey
  | ErrEncryptedDataKeyNotFound string string
  | ErrDataKeyDecryption
  | ErrDecodePriKey
  | ErrDecodePubKey
  | LibError string

text \<open>What the engine hands to its logger: an error value, a message text, a debug line.\<close>

datatype logentry =
    LogError error
  | LogErrorText string
  | LogDebug string

definition errAESCipherCreation :: string where
  "errAESCipherCreation = ''failed to create AES cipher''"

definition errGCMCreation :: string where
  "errGCMCreation = ''failed to create gcm''"

definition debugNotInCache :: string where
  "debugNotInCache = ''%s Failed to decrypt data or data key is not in cache. Will attempt to refresh''"

text \<open>
  A Go \<open>map[string]string\<close> is an association list with distinct keys, in the order in
  which \<open>range\<close> visits it; the nil map and the empty map are both \<open>[]\<close> (the engine
  only ranges over it and takes its \<open>len\<close>).
\<close>

type_synonym metadata = "(string \<times> string) list"

text \<open>
  Modelled from the spec: the type \<open>EncryptionKeyInfo\<close> and its constructor
  \<open>NewEncryptionKeyInfo\<close> are declared in a file that is not among the sources. The
  spec's KeyMaterial is "raw key bytes plus an opaque string-to-string metadata
  mapping", immutable once constructed.
\<close>

record EncryptionKeyInfo =
  infoKey :: bytes
  infoMetadata :: metadata

definition NewEncryptionKeyInfo :: "bytes \<Rightarrow> metadata \<Rightarrow> EncryptionKeyInfo" where
  "NewEncryptionKeyInfo k m = \<lparr>infoKey = k, infoMetadata = m\<rparr>"

text \<open>
  The protobuf messages the engine reads and writes: \<open>pb.KeyValue\<close>,
  \<open>pb.EncryptionKeys\<close> (one wrapped data key with the recipient's name) and the two
  fields of \<open>pb.MessageMetadata\<close> the engine touches. \<open>Key: &keyName\<close> is read as the
  name of the iteration that builds the entry.
\<close>

type_synonym KeyValue = "string \<times> string"

record pbEncryptionKeys =
  Key :: string
  Value :: bytes
  Metadata :: "KeyValue list"

record MessageMetadata =
  EncryptionKeys :: "pbEncryptionKeys list"
  EncryptionParam :: slice

text \<open>
  The \<open>KeyReader\<close> interface. A reader is a pair of lookups; the calls the engine makes
  on it are recorded in the environment below, which is what a call-counting reader
  observes.
\<close>

record KeyReader =
  GetPublicKey :: "string \<Rightarrow> metadata \<Rightarrow> error + EncryptionKeyInfo"
  GetPrivateKey :: "string \<Rightarrow> metadata \<Rightarrow> error + EncryptionKeyInfo"

datatype 'pub PublicKey = RSAPublicKey 'pub | OtherPublicKey
datatype 'priv PrivateKey = RSAPrivateKey 'priv | OtherPrivateKey

text \<open>
  The functions of the Go standard library the engine calls, as parameters:
  \<^item> \<open>rand_Read r n\<close>: \<open>rand.Read\<close> on a buffer of \<open>n\<close> bytes in entropy state \<open>r\<close>: the
    bytes written, the error, the next entropy state;
  \<^item> \<open>pem_Decode\<close>: the \<open>Bytes\<close> of the first PEM block, \<open>None\<close> when there is none;
  \<^item> \<open>rsa_EncryptOAEP\<close>, \<open>rsa_DecryptOAEP\<close>: with SHA-1 and no label; encryption draws
    from \<open>rand.Reader\<close>, the result of decryption does not depend on it;
  \<^item> \<open>gcm_Open\<close>: \<open>None\<close> is the panic of \<open>Open\<close> on a nonce of the wrong length;
    \<open>Some (Inl e)\<close> is a failed authentication (the Go implementation then returns
    the nil slice);
  \<^item> \<open>md5_hex\<close>: \<open>fmt.Sprintf("%x", md5.Sum(b))\<close>.
\<close>

record ('pub, 'priv, 'blk, 'gcm, 'r) golib =
  rand_Read :: "'r \<Rightarrow> nat \<Rightarrow> (bytes \<times> error option) \<times> 'r"
  pem_Decode :: "bytes \<Rightarrow> bytes option"
  x509_ParsePKIXPublicKey :: "bytes \<Rightarrow> error + 'pub PublicKey"
  x509_ParsePKCS1PrivateKey :: "bytes \<Rightarrow> error + 'priv"
  rsa_EncryptOAEP :: "'r \<Rightarrow> 'pub \<Rightarrow> bytes \<Rightarrow> (error + bytes) \<times> 'r"
  rsa_DecryptOAEP :: "'priv \<Rightarrow> bytes \<Rightarrow> error + slice"
  aes_NewCipher :: "bytes \<Rightarrow> error + 'blk"
  cipher_NewGCM :: "'blk \<Rightarrow> error + 'gcm"
  gcm_NonceSize :: "'gcm \<Rightarrow> nat"
  gcm_Seal :: "'gcm \<Rightarrow> bytes \<Rightarrow> bytes \<Rightarrow> slice"
  gcm_Open :: "'gcm \<Rightarrow> bytes \<Rightarrow> bytes \<Rightarrow> (error + slice) option"
  md5_hex :: "bytes \<Rightarrow> string"

text \<open>
  What lies outside the engine: the state of \<open>rand.Reader\<close> and the calls made so far
  on the key reader and on the RSA private-key operation (oldest first).
\<close>

datatype call =
    CallGetPublicKey string
  | CallGetPrivateKey string
  | CallDecryptOAEP bytes

record 'r env =
  entropy :: 'r
  calls :: "call list"

text \<open>
  The engine. \<open>loadingCache\<close> and \<open>encryptedDataKeyMap\<close> are the two \<open>sync.Map\<close>s;
  \<open>logger\<close> holds what has been logged so far (oldest first). The mutexes are not
  modelled: every operation below runs alone.
\<close>

record DefaultMessageCrypto =
  dataKey :: slice
  loadingCache :: "string \<rightharpoonup> slice"
  encryptedDataKeyMap :: "string \<rightharpoonup> EncryptionKeyInfo"
  logCtx :: string
  logger :: "logentry list"

definition logs :: "logentry \<Rightarrow> DefaultMessageCrypto \<Rightarrow> DefaultMessageCrypto" where
  "logs e d = d\<lparr>logger := logger d @ [e]\<rparr>"

definition called :: "call \<Rightarrow> 'r env \<Rightarrow> 'r env" where
  "called c env = env\<lparr>calls := calls env @ [c]\<rparr>"

section \<open>Key generation and construction\<close>

definition generateDataKey ::
  "('pub, 'priv, 'blk, 'gcm, 'r) golib \<Rightarrow> 'r env \<Rightarrow> (bytes \<times> error option) \<times> 'r env" where
  "generateDataKey L env =
     (case rand_Read L (entropy env) 32 of
        ((w, err), r') \<Rightarrow> ((fill 32 w, err), env\<lparr>entropy := r'\<rparr>))"

definition NewDefaultMessageCrypto ::
  "('pub, 'priv, 'blk, 'gcm, 'r) golib \<Rightarrow> string \<Rightarrow> bool \<Rightarrow> 'r env
     \<Rightarrow> (DefaultMessageCrypto \<times> error option) \<times> 'r env" where
  "NewDefaultMessageCrypto L ctx keyGenNeeded env =
     (let d = \<lparr>dataKey = None, loadingCache = Map.empty, encryptedDataKeyMap = Map.empty,
                logCtx = ctx, logger = []\<rparr>
      in if keyGenNeeded then
           (case generateDataKey L env of
              ((key, Some err), env') \<Rightarrow> ((d, Some err), env')
            | ((key, None), env') \<Rightarrow> ((d\<lparr>dataKey := Some key\<rparr>, None), env'))
         else ((d, None), env))"

section \<open>Wrapping the data key for a recipient\<close>

definition loadPublicKey ::
  "('pub, 'priv, 'blk, 'gcm, 'r) golib \<Rightarrow> bytes \<Rightarrow> error + 'pub PublicKey" where
  "loadPublicKey L k =
     (case pem_Decode L k of
        None \<Rightarrow> Inl ErrDecodePubKey
      | Some der \<Rightarrow> x509_ParsePKIXPublicKey L der)"

definition loadPrivateKey ::
  "('pub, 'priv, 'blk, 'gcm, 'r) golib \<Rightarrow> bytes \<Rightarrow> error + 'priv PrivateKey" where
  "loadPrivateKey L k =
     (case pem_Decode L k of
        None \<Rightarrow> Inl ErrDecodePriKey
      | Some der \<Rightarrow>
          (case x509_ParsePKCS1PrivateKey L der of
             Inl e \<Rightarrow> Inl e
           | Inr pk \<Rightarrow> Inr (RSAPrivateKey pk)))"

definition addPublicKeyCipher ::
  "('pub, 'priv, 'blk, 'gcm, 'r) golib \<Rightarrow> string \<Rightarrow> KeyReader option
     \<Rightarrow> DefaultMessageCrypto \<Rightarrow> 'r env \<Rightarrow> error option \<times> DefaultMessageCrypto \<times> 'r env" where
  "addPublicKeyCipher L keyName keyReader d env =
     (case keyReader of
        None \<Rightarrow> (Some ErrEmptyKeyNameOrKeyReader, d, env)
      | Some kr \<Rightarrow>
          if keyName = [] then (Some ErrEmptyKeyNameOrKeyReader, d, env)
          else
            let env1 = called (CallGetPublicKey keyName) env in
            (case GetPublicKey kr keyName [] of
               Inl e \<Rightarrow> (Some e, d, env1)
             | Inr keyInfo \<Rightarrow>
                 (case loadPublicKey L (infoKey keyInfo) of
                    Inl e \<Rightarrow> (Some e, d, env1)
                  | Inr OtherPublicKey \<Rightarrow> (Some ErrParseRSAPubKey, d, env1)
                  | Inr (RSAPublicKey rsaPubKey) \<Rightarrow>
                      (case rsa_EncryptOAEP L (entropy env1) rsaPubKey (content (dataKey d)) of
                         (Inl e, r') \<Rightarrow> (Some e, d, env1\<lparr>entropy := r'\<rparr>)
                       | (Inr encryptedDataKey, r') \<Rightarrow>
                           (None,
                            d\<lparr>encryptedDataKeyMap := (encryptedDataKeyMap d)
                                 (keyName \<mapsto> NewEncryptionKeyInfo encryptedDataKey
                                               (infoMetadata keyInfo))\<rparr>,
                            env1\<lparr>entropy := r'\<rparr>)))))"

fun addAll ::
  "('pub, 'priv, 'blk, 'gcm, 'r) golib \<Rightarrow> string list \<Rightarrow> KeyReader option
     \<Rightarrow> DefaultMessageCrypto \<Rightarrow> 'r env \<Rightarrow> error option \<times> DefaultMessageCrypto \<times> 'r env" where
  "addAll L [] keyReader d env = (None, d, env)"
| "addAll L (keyName # keyNames) keyReader d env =
     (case addPublicKeyCipher L keyName keyReader d env of
        (Some err, d', env') \<Rightarrow> (Some err, d', env')
      | (None, d', env') \<Rightarrow> addAll L keyNames keyReader d' env')"

definition AddPublicKeyCipher ::
  "('pub, 'priv, 'blk, 'gcm, 'r) golib \<Rightarrow> string list \<Rightarrow> KeyReader option
     \<Rightarrow> DefaultMessageCrypto \<Rightarrow> 'r env \<Rightarrow> error option \<times> DefaultMessageCrypto \<times> 'r env" where
  "AddPublicKeyCipher L keyNames keyReader d env =
     (case generateDataKey L env of
        ((key, Some err), env') \<Rightarrow> (Some err, d, env')
      | ((key, None), env') \<Rightarrow> addAll L keyNames keyReader (d\<lparr>dataKey := Some key\<rparr>) env')"

definition RemoveKeyCipher ::
  "string \<Rightarrow> DefaultMessageCrypto \<Rightarrow> bool \<times> DefaultMessageCrypto" where
  "RemoveKeyCipher keyName d =
     (if keyName = [] then (False, d)
      else (True, d\<lparr>encryptedDataKeyMap := (encryptedDataKeyMap d)(keyName := None)\<rparr>))"

section \<open>Encrypt\<close>

text \<open>
  \<open>encryptionKeysMap\<close> maps a name to the entry of the message's key list that carries
  it. The Go map holds pointers into the list; here it holds the index, so that
  \<open>*k = *newEncryptionKey\<close> is the list update at that index. A later entry with the
  same name overwrites an earlier one, as the assignment in the loop does.
\<close>

definition encryptionKeysMap :: "pbEncryptionKeys list \<Rightarrow> (string \<rightharpoonup> nat)" where
  "encryptionKeysMap ks =
     fold (\<lambda>(i, encKey) m. m(Key encKey \<mapsto> i)) (enumerate 0 ks) Map.empty"

definition newEncryptionKey :: "string \<Rightarrow> EncryptionKeyInfo \<Rightarrow> pbEncryptionKeys" where
  "newEncryptionKey keyName keyInfo =
     \<lparr>Key = keyName, Value = infoKey keyInfo,
      Metadata = (if 0 < length (infoMetadata keyInfo) then [] @ infoMetadata keyInfo else [])\<rparr>"

text \<open>Lines 175 to 179: wrap the data key for a name the store does not hold; a failure is logged.\<close>

definition lazyWrap ::
  "('pub, 'priv, 'blk, 'gcm, 'r) golib \<Rightarrow> string \<Rightarrow> KeyReader option
     \<Rightarrow> DefaultMessageCrypto \<Rightarrow> 'r env \<Rightarrow> DefaultMessageCrypto \<times> 'r env" where
  "lazyWrap L keyName keyReader d env =
     (if encryptedDataKeyMap d keyName = None then
        (case addPublicKeyCipher L keyName keyReader d env of
           (Some err, d', env') \<Rightarrow> (logs (LogError err) d', env')
         | (None, d', env') \<Rightarrow> (d', env'))
      else (d, env))"

text \<open>
  The loop of lines 173 to 219 over the requested names. \<open>keys\<close> is the local slice
  \<open>encryptionKeys\<close>. The type assertion of line 183 cannot fail (the store only ever
  holds \<open>EncryptionKeyInfo\<close> values), so its else branch has no counterpart.
\<close>

fun encryptKeys ::
  "('pub, 'priv, 'blk, 'gcm, 'r) golib \<Rightarrow> string list \<Rightarrow> KeyReader option
     \<Rightarrow> (string \<rightharpoonup> nat) \<Rightarrow> pbEncryptionKeys list \<Rightarrow> DefaultMessageCrypto \<Rightarrow> 'r env
     \<Rightarrow> error option \<times> pbEncryptionKeys list \<times> DefaultMessageCrypto \<times> 'r env" where
  "encryptKeys L [] keyReader m keys d env = (None, keys, d, env)"
| "encryptKeys L (keyName # rest) keyReader m keys d env =
     (case lazyWrap L keyName keyReader d env of
        (d1, env1) \<Rightarrow>
          (case encryptedDataKeyMap d1 keyName of
             Some keyInfo \<Rightarrow>
               encryptKeys L rest keyReader m
                 (case m keyName of
                    Some i \<Rightarrow> keys[i := newEncryptionKey keyName keyInfo]
                  | None \<Rightarrow> keys @ [newEncryptionKey keyName keyInfo])
                 d1 env1
           | None \<Rightarrow>
               (Some (ErrEncryptedDataKeyNotFound (logCtx d1) keyName), keys,
                logs (LogError (ErrEncryptedDataKeyNotFound (logCtx d1) keyName)) d1, env1)))"

text \<open>Lines 224 to 253: the cipher over the current data key, the nonce, the seal.\<close>

definition sealPayload ::
  "('pub, 'priv, 'blk, 'gcm, 'r) golib \<Rightarrow> MessageMetadata \<Rightarrow> slice
     \<Rightarrow> DefaultMessageCrypto \<Rightarrow> 'r env
     \<Rightarrow> (slice \<times> error option) \<times> MessageMetadata \<times> DefaultMessageCrypto \<times> 'r env" where
  "sealPayload L msgMetadata payload d env =
     (case aes_NewCipher L (content (dataKey d)) of
        Inl err \<Rightarrow> ((None, Some err), msgMetadata, logs (LogErrorText errAESCipherCreation) d, env)
      | Inr c \<Rightarrow>
          (case cipher_NewGCM L c of
             Inl err \<Rightarrow> ((None, Some err), msgMetadata, logs (LogErrorText errGCMCreation) d, env)
           | Inr gcm \<Rightarrow>
               (case rand_Read L (entropy env) (gcm_NonceSize L gcm) of
                  ((w, Some err), r') \<Rightarrow>
                    ((None, Some ErrGeneratingNonce), msgMetadata,
                     logs (LogError ErrGeneratingNonce) d, env\<lparr>entropy := r'\<rparr>)
                | ((w, None), r') \<Rightarrow>
                    ((gcm_Seal L gcm (fill (gcm_NonceSize L gcm) w) (content payload), None),
                     msgMetadata\<lparr>EncryptionParam := Some (fill (gcm_NonceSize L gcm) w)\<rparr>,
                     d, env\<lparr>entropy := r'\<rparr>))))"

text \<open>
  \<open>Encrypt\<close> returns the pair of its results, the message metadata as the call leaves
  it, the engine and the environment. When the loop returns early (line 216) the
  assignment of line 222 has not run: the metadata then shows the replacements made in
  place through the shared pointers, and none of the appended entries.
\<close>

definition Encrypt ::
  "('pub, 'priv, 'blk, 'gcm, 'r) golib \<Rightarrow> string list \<Rightarrow> KeyReader option
     \<Rightarrow> MessageMetadata \<Rightarrow> slice \<Rightarrow> DefaultMessageCrypto \<Rightarrow> 'r env
     \<Rightarrow> (slice \<times> error option) \<times> MessageMetadata \<times> DefaultMessageCrypto \<times> 'r env" where
  "Encrypt L encKeys keyReader msgMetadata payload d env =
     (if length encKeys = 0 then ((payload, None), msgMetadata, d, env)
      else
        (case encryptKeys L encKeys keyReader (encryptionKeysMap (EncryptionKeys msgMetadata))
                (EncryptionKeys msgMetadata) d env of
           (Some err, keys, d1, env1) \<Rightarrow>
             ((None, Some err),
              msgMetadata\<lparr>EncryptionKeys := take (length (EncryptionKeys msgMetadata)) keys\<rparr>,
              d1, env1)
         | (None, keys, d1, env1) \<Rightarrow>
             sealPayload L (msgMetadata\<lparr>EncryptionKeys := keys\<rparr>) payload d1 env1))"

section \<open>Decrypt\<close>

text \<open>\<open>None\<close> is a panic; the other results are the pair the Go function returns.\<close>

definition decryptData ::
  "('pub, 'priv, 'blk, 'gcm, 'r) golib \<Rightarrow> bytes \<Rightarrow> MessageMetadata \<Rightarrow> slice
     \<Rightarrow> DefaultMessageCrypto \<Rightarrow> ((slice \<times> error option) \<times> DefaultMessageCrypto) option" where
  "decryptData L dataKeySecret msgMetadata payload d =
     (case aes_NewCipher L dataKeySecret of
        Inl err \<Rightarrow> Some ((None, Some err), logs (LogError err) d)
      | Inr c \<Rightarrow>
          (case cipher_NewGCM L c of
             Inl err \<Rightarrow> Some ((None, Some err), d)
           | Inr gcm \<Rightarrow>
               (case gcm_Open L gcm (content (EncryptionParam msgMetadata)) (content payload) of
                  None \<Rightarrow> None
                | Some (Inl err) \<Rightarrow> Some ((None, Some err), logs (LogError err) d)
                | Some (Inr decryptedData) \<Rightarrow> Some ((decryptedData, None), d))))"

text \<open>The loop of \<open>getKeyAndDecryptData\<close> over the entries of the message's key list.\<close>

fun tryKeys ::
  "('pub, 'priv, 'blk, 'gcm, 'r) golib \<Rightarrow> pbEncryptionKeys list \<Rightarrow> MessageMetadata \<Rightarrow> slice
     \<Rightarrow> DefaultMessageCrypto \<Rightarrow> ((slice \<times> error option) \<times> DefaultMessageCrypto) option" where
  "tryKeys L [] msgMetadata payload d = Some ((None, None), d)"
| "tryKeys L (k # ks) msgMetadata payload d =
     (case loadingCache d (md5_hex L (Value k)) of
        Some storedSecretKey \<Rightarrow>
          (case decryptData L (content storedSecretKey) msgMetadata payload d of
             None \<Rightarrow> None
           | Some ((decryptedData, Some err), d1) \<Rightarrow>
               (if decryptedData \<noteq> None then Some ((decryptedData, None), logs (LogError err) d1)
                else tryKeys L ks msgMetadata payload (logs (LogError err) d1))
           | Some ((decryptedData, None), d1) \<Rightarrow>
               (if decryptedData \<noteq> None then Some ((decryptedData, None), d1)
                else tryKeys L ks msgMetadata payload d1))
      | None \<Rightarrow> tryKeys L ks msgMetadata payload (logs (LogDebug debugNotInCache) d))"

definition getKeyAndDecryptData ::
  "('pub, 'priv, 'blk, 'gcm, 'r) golib \<Rightarrow> MessageMetadata \<Rightarrow> slice
     \<Rightarrow> DefaultMessageCrypto \<Rightarrow> ((slice \<times> error option) \<times> DefaultMessageCrypto) option" where
  "getKeyAndDecryptData L msgMetadata payload d =
     tryKeys L (EncryptionKeys msgMetadata) msgMetadata payload d"

text \<open>
  \<open>decryptDataKey\<close>: \<open>None\<close> is the panic of calling \<open>GetPrivateKey\<close> on a nil reader.
  \<open>keyMeta\<close> is the map built from the entry's key-value list, a later pair with the
  same key replacing an earlier one.
\<close>

definition keyMetaOf :: "KeyValue list \<Rightarrow> metadata" where
  "keyMetaOf encKeymeta = fold (\<lambda>(k, v) m. AList.update k v m) encKeymeta []"

definition decryptDataKey ::
  "('pub, 'priv, 'blk, 'gcm, 'r) golib \<Rightarrow> string \<Rightarrow> bytes \<Rightarrow> KeyValue list \<Rightarrow> KeyReader option
     \<Rightarrow> DefaultMessageCrypto \<Rightarrow> 'r env \<Rightarrow> (bool \<times> DefaultMessageCrypto \<times> 'r env) option" where
  "decryptDataKey L keyName encDatakey encKeymeta keyReader d env =
     (case keyReader of
        None \<Rightarrow> None
      | Some kr \<Rightarrow>
          let env1 = called (CallGetPrivateKey keyName) env in
          (case GetPrivateKey kr keyName (keyMetaOf encKeymeta) of
             Inl err \<Rightarrow> Some (False, logs (LogError err) d, env1)
           | Inr keyInfo \<Rightarrow>
               (case loadPrivateKey L (infoKey keyInfo) of
                  Inl err \<Rightarrow> Some (False, logs (LogError err) d, env1)
                | Inr OtherPrivateKey \<Rightarrow> Some (False, logs (LogError ErrParseRSAPriKey) d, env1)
                | Inr (RSAPrivateKey rsaPriKey) \<Rightarrow>
                    let env2 = called (CallDecryptOAEP encDatakey) env1 in
                    (case rsa_DecryptOAEP L rsaPriKey encDatakey of
                       Inl err \<Rightarrow> Some (False, logs (LogError err) d, env2)
                     | Inr decryptedDataKey \<Rightarrow>
                         Some (True,
                               d\<lparr>dataKey := decryptedDataKey,
                                 loadingCache := (loadingCache d)
                                   (md5_hex L encDatakey \<mapsto> decryptedDataKey)\<rparr>,
                               env2)))))"

text \<open>The loop of lines 279 to 283; \<open>acc\<close> is the local slice \<open>encryptionKeys\<close>.\<close>

fun decryptDataKeys ::
  "('pub, 'priv, 'blk, 'gcm, 'r) golib \<Rightarrow> pbEncryptionKeys list \<Rightarrow> KeyReader option
     \<Rightarrow> pbEncryptionKeys list \<Rightarrow> DefaultMessageCrypto \<Rightarrow> 'r env
     \<Rightarrow> (pbEncryptionKeys list \<times> DefaultMessageCrypto \<times> 'r env) option" where
  "decryptDataKeys L [] keyReader acc d env = Some (acc, d, env)"
| "decryptDataKeys L (k # ks) keyReader acc d env =
     (case decryptDataKey L (Key k) (Value k) (Metadata k) keyReader d env of
        None \<Rightarrow> None
      | Some (True, d', env') \<Rightarrow> decryptDataKeys L ks keyReader (acc @ [k]) d' env'
      | Some (False, d', env') \<Rightarrow> decryptDataKeys L ks keyReader acc d' env')"

text \<open>Lines 263 to 272: the attempt with the cached keys when a data key is present.\<close>

definition fastPath ::
  "('pub, 'priv, 'blk, 'gcm, 'r) golib \<Rightarrow> MessageMetadata \<Rightarrow> slice
     \<Rightarrow> DefaultMessageCrypto \<Rightarrow> (slice \<times> DefaultMessageCrypto) option" where
  "fastPath L msgMetadata payload d =
     (if dataKey d \<noteq> None then
        (case getKeyAndDecryptData L msgMetadata payload d of
           None \<Rightarrow> None
         | Some ((decryptedData, Some err), d1) \<Rightarrow> Some (decryptedData, logs (LogError err) d1)
         | Some ((decryptedData, None), d1) \<Rightarrow> Some (decryptedData, d1))
      else Some (None, d))"

definition Decrypt ::
  "('pub, 'priv, 'blk, 'gcm, 'r) golib \<Rightarrow> MessageMetadata \<Rightarrow> slice \<Rightarrow> KeyReader option
     \<Rightarrow> DefaultMessageCrypto \<Rightarrow> 'r env
     \<Rightarrow> ((slice \<times> error option) \<times> DefaultMessageCrypto \<times> 'r env) option" where
  "Decrypt L msgMetadata payload keyReader d env =
     (case fastPath L msgMetadata payload d of
        None \<Rightarrow> None
      | Some (Some decryptedData, d1) \<Rightarrow> Some ((Some decryptedData, None), d1, env)
      | Some (None, d1) \<Rightarrow>
          (case decryptDataKeys L (EncryptionKeys msgMetadata) keyReader [] d1 env of
             None \<Rightarrow> None
           | Some (encryptionKeys, d2, env2) \<Rightarrow>
               if length encryptionKeys = 0 then Some ((None, Some ErrDataKeyDecryption), d2, env2)
               else
                 (case getKeyAndDecryptData L msgMetadata payload d2 of
                    None \<Rightarrow> None
                  | Some (res, d3) \<Rightarrow> Some (res, d3, env2))))"

section \<open>Notions used in the statements\<close>

text \<open>
  \<open>wrapsFor L keyReader keyName msg entry\<close>: the store entry \<open>entry\<close> is what
  \<open>addPublicKeyCipher\<close> stores for \<open>keyName\<close> when the data key has the bytes \<open>msg\<close>:
  the RSA-OAEP encryption of \<open>msg\<close>, in some state of the entropy, under the public key
  the reader returns for the name, with the metadata the reader returned.
\<close>

definition wrapsFor ::
  "('pub, 'priv, 'blk, 'gcm, 'r) golib \<Rightarrow> KeyReader option \<Rightarrow> string \<Rightarrow> bytes
     \<Rightarrow> EncryptionKeyInfo \<Rightarrow> bool" where
  "wrapsFor L keyReader keyName msg entry \<longleftrightarrow>
     (\<exists>kr keyInfo pub r r'.
        keyReader = Some kr \<and> keyName \<noteq> [] \<and>
        GetPublicKey kr keyName [] = Inr keyInfo \<and>
        loadPublicKey L (infoKey keyInfo) = Inr (RSAPublicKey pub) \<and>
        rsa_EncryptOAEP L r pub msg = (Inr (infoKey entry), r') \<and>
        infoMetadata entry = infoMetadata keyInfo)"

text \<open>
  \<open>unwrapKey L kr k\<close>: what the reader \<open>kr\<close> and the library make of the envelope entry
  \<open>k\<close> in \<open>decryptDataKey\<close>: \<open>Some\<close> of the slice \<open>rsa.DecryptOAEP\<close> returns, or \<open>None\<close>
  when one of the four steps fails. \<open>openWith L key md payload\<close>: the pair
  \<open>decryptData\<close> returns for the key, without the logging; \<open>None\<close> is the panic.
  Lemmas \<open>decryptDataKey_unwrap\<close>, \<open>decryptData_frame\<close> and \<open>openWith_decryptData\<close>
  relate them to the two functions of the engine.
\<close>

definition unwrapKey ::
  "('pub, 'priv, 'blk, 'gcm, 'r) golib \<Rightarrow> KeyReader \<Rightarrow> pbEncryptionKeys \<Rightarrow> slice option" where
  "unwrapKey L kr k =
     (case GetPrivateKey kr (Key k) (keyMetaOf (Metadata k)) of
        Inl err \<Rightarrow> None
      | Inr keyInfo \<Rightarrow>
          (case loadPrivateKey L (infoKey keyInfo) of
             Inr (RSAPrivateKey rsaPriKey) \<Rightarrow>
               (case rsa_DecryptOAEP L rsaPriKey (Value k) of
                  Inl err \<Rightarrow> None
                | Inr decryptedDataKey \<Rightarrow> Some decryptedDataKey)
           | _ \<Rightarrow> None))"

definition openWith ::
  "('pub, 'priv, 'blk, 'gcm, 'r) golib \<Rightarrow> bytes \<Rightarrow> MessageMetadata \<Rightarrow> slice
     \<Rightarrow> (slice \<times> error option) option" where
  "openWith L dataKeySecret msgMetadata payload =
     (case aes_NewCipher L dataKeySecret of
        Inl err \<Rightarrow> Some (None, Some err)
      | Inr c \<Rightarrow>
          (case cipher_NewGCM L c of
             Inl err \<Rightarrow> Some (None, Some err)
           | Inr gcm \<Rightarrow>
               (case gcm_Open L gcm (content (EncryptionParam msgMetadata)) (content payload) of
                  None \<Rightarrow> None
                | Some (Inl err) \<Rightarrow> Some (None, Some err)
                | Some (Inr decryptedData) \<Rightarrow> Some (decryptedData, None))))"

text \<open>The length invariant of the data key: when present, it has 32 bytes.\<close>

definition keyLenOK :: "DefaultMessageCrypto \<Rightarrow> bool" where
  "keyLenOK d = (case dataKey d of None \<Rightarrow> True | Some k \<Rightarrow> length k = 32)"

text \<open>Two engines that differ at most in what they have logged.\<close>

definition sameButLog :: "DefaultMessageCrypto \<Rightarrow> DefaultMessageCrypto \<Rightarrow> bool" where
  "sameButLog d' d \<longleftrightarrow>
     dataKey d' = dataKey d \<and> loadingCache d' = loadingCache d
     \<and> encryptedDataKeyMap d' = encryptedDataKeyMap d \<and> logCtx d' = logCtx d"

text \<open>
  Two notions for the loop of \<open>Encrypt\<close>. \<open>mapOK m keys\<close>: every index the name map
  holds points into the list, at an entry that carries the name. \<open>hasEntry keys d name\<close>:
  the list has an entry for the name whose value is the wrapped key the store holds
  for it.
\<close>

definition mapOK :: "(string \<rightharpoonup> nat) \<Rightarrow> pbEncryptionKeys list \<Rightarrow> bool" where
  "mapOK m keys \<longleftrightarrow> (\<forall>name i. m name = Some i \<longrightarrow> i < length keys \<and> Key (keys ! i) = name)"

definition hasEntry :: "pbEncryptionKeys list \<Rightarrow> DefaultMessageCrypto \<Rightarrow> string \<Rightarrow> bool" where
  "hasEntry keys d name \<longleftrightarrow>
     (\<exists>k\<in>set keys. \<exists>entry. Key k = name \<and> encryptedDataKeyMap d name = Some entry
                       \<and> Value k = infoKey entry)"

text \<open>
  What the round trip assumes of the library, of the keys and of the message.
  \<^item> \<open>validPair L pub priv\<close>: RSA-OAEP decryption under \<open>priv\<close> returns the message of
    every encryption under \<open>pub\<close>;
  \<^item> \<open>gcmCorrect L\<close>: \<open>Open\<close> returns the payload of every \<open>Seal\<close> under the same cipher
    and a nonce of the cipher's size (as a slice that may be nil when the payload is
    empty);
  \<^item> \<open>opensSafely L md c p key\<close>: trying \<open>key\<close> on the ciphertext does not panic and
    yields nothing or the bytes \<open>p\<close>; \<open>keysOpenOnlyTo\<close> says so of every key the engine
    can try on the envelope, the ones cached under an entry's fingerprint and the ones
    the reader unwraps from an entry (the authenticity of the sealed payload);
  \<^item> \<open>fingerprintsAgree\<close>: entries of the envelope with the same fingerprint unwrap
    alike (no collision of the digest between keys that differ);
  \<^item> \<open>privateKeyOf L keyReader R priv\<close>: \<open>priv\<close> is the private key of whatever RSA public
    key the reader returns for \<open>R\<close>; \<open>suppliesPrivateKey L kr priv\<close>: the reader returns
    the PEM of \<open>priv\<close> for every lookup, as \<open>DefaultKeyReader\<close> does;
  \<^item> \<open>storedKeyCurrent L priv d R\<close>: the entry the store holds for \<open>R\<close>, if any, unwraps
    to the current data key (it is not left over from before a rotation).
\<close>

definition validPair ::
  "('pub, 'priv, 'blk, 'gcm, 'r) golib \<Rightarrow> 'pub \<Rightarrow> 'priv \<Rightarrow> bool" where
  "validPair L pub priv \<longleftrightarrow>
     (\<forall>r msg w r'. rsa_EncryptOAEP L r pub msg = (Inr w, r') \<longrightarrow>
        (\<exists>s. rsa_DecryptOAEP L priv w = Inr s \<and> content s = msg))"

definition gcmCorrect :: "('pub, 'priv, 'blk, 'gcm, 'r) golib \<Rightarrow> bool" where
  "gcmCorrect L \<longleftrightarrow>
     (\<forall>g nonce p. length nonce = gcm_NonceSize L g \<longrightarrow>
        (\<exists>s. gcm_Open L g nonce (content (gcm_Seal L g nonce p)) = Some (Inr s)
              \<and> content s = p))"

definition opensSafely ::
  "('pub, 'priv, 'blk, 'gcm, 'r) golib \<Rightarrow> MessageMetadata \<Rightarrow> slice \<Rightarrow> bytes \<Rightarrow> bytes \<Rightarrow> bool" where
  "opensSafely L md c p key =
     (case openWith L key md c of
        None \<Rightarrow> False
      | Some (data, err) \<Rightarrow> data = None \<or> content data = p)"

definition keysOpenOnlyTo ::
  "('pub, 'priv, 'blk, 'gcm, 'r) golib \<Rightarrow> KeyReader \<Rightarrow> DefaultMessageCrypto
     \<Rightarrow> MessageMetadata \<Rightarrow> slice \<Rightarrow> bytes \<Rightarrow> bool" where
  "keysOpenOnlyTo L kr d md c p \<longleftrightarrow>
     (\<forall>k\<in>set (EncryptionKeys md).
        (case loadingCache d (md5_hex L (Value k)) of
           None \<Rightarrow> True
         | Some key \<Rightarrow> opensSafely L md c p (content key))
        \<and> (case unwrapKey L kr k of
              None \<Rightarrow> True
            | Some key \<Rightarrow> opensSafely L md c p (content key)))"

definition fingerprintsAgree ::
  "('pub, 'priv, 'blk, 'gcm, 'r) golib \<Rightarrow> KeyReader \<Rightarrow> MessageMetadata \<Rightarrow> bool" where
  "fingerprintsAgree L kr md \<longleftrightarrow>
     (\<forall>k\<in>set (EncryptionKeys md). \<forall>k'\<in>set (EncryptionKeys md).
        md5_hex L (Value k) = md5_hex L (Value k') \<longrightarrow> unwrapKey L kr k = unwrapKey L kr k')"

definition privateKeyOf ::
  "('pub, 'priv, 'blk, 'gcm, 'r) golib \<Rightarrow> KeyReader option \<Rightarrow> string \<Rightarrow> 'priv \<Rightarrow> bool" where
  "privateKeyOf L keyReader R priv \<longleftrightarrow>
     (\<forall>kr pubInfo pub.
        keyReader = Some kr \<longrightarrow> GetPublicKey kr R [] = Inr pubInfo \<longrightarrow>
        loadPublicKey L (infoKey pubInfo) = Inr (RSAPublicKey pub) \<longrightarrow> validPair L pub priv)"

definition storedKeyCurrent ::
  "('pub, 'priv, 'blk, 'gcm, 'r) golib \<Rightarrow> 'priv \<Rightarrow> DefaultMessageCrypto \<Rightarrow> string \<Rightarrow> bool" where
  "storedKeyCurrent L priv d R \<longleftrightarrow>
     (\<forall>entry. encryptedDataKeyMap d R = Some entry \<longrightarrow>
        (\<exists>s. rsa_DecryptOAEP L priv (infoKey entry) = Inr s \<and> content s = content (dataKey d)))"

definition suppliesPrivateKey ::
  "('pub, 'priv, 'blk, 'gcm, 'r) golib \<Rightarrow> KeyReader \<Rightarrow> 'priv \<Rightarrow> bool" where
  "suppliesPrivateKey L kr priv \<longleftrightarrow>
     (\<forall>name meta. \<exists>privInfo.
        GetPrivateKey kr name meta = Inr privInfo
        \<and> loadPrivateKey L (infoKey privInfo) = Inr (RSAPrivateKey priv))"

section \<open>An executable instance of the library\<close>

text \<open>
  A small instance of the library interface on which the engine can be run. Keys are
  single bytes and a public key is its own private key; a wrapped key is the public
  key, one byte of entropy and the message; a sealed payload is the payload followed
  by a tag made of a checksum, the nonce and the key. As in Go, the cipher accepts keys
  of 16, 24 or 32 bytes, \<open>Open\<close> panics on a nonce that is not 12 bytes long and
  returns the nil slice for an empty plaintext. Entropy is a finite supply of bytes;
  reading when it is exhausted fails.
\<close>

definition hexdigit :: "byte \<Rightarrow> char" where
  "hexdigit b =
     (if b = 0 then CHR ''0'' else if b = 1 then CHR ''1'' else if b = 2 then CHR ''2''
      else if b = 3 then CHR ''3'' else CHR ''f'')"

definition toyTag :: "bytes \<Rightarrow> bytes \<Rightarrow> bytes \<Rightarrow> bytes" where
  "toyTag g nonce p = sum_list p # nonce @ g"

definition toyOpen :: "bytes \<Rightarrow> bytes \<Rightarrow> bytes \<Rightarrow> (error + slice) option" where
  "toyOpen g nonce c =
     (if length nonce \<noteq> 12 then None
      else if length c < 13 + length g
        then Some (Inl (LibError ''cipher: message authentication failed''))
      else
        let p = take (length c - (13 + length g)) c in
        if drop (length p) c = toyTag g nonce p
        then Some (Inr (if p = [] then None else Some p))
        else Some (Inl (LibError ''cipher: message authentication failed'')))"

definition toyLib :: "(byte, byte, bytes, bytes, bytes) golib" where
  "toyLib = \<lparr>
     rand_Read = (\<lambda>r n. case r of
                      [] \<Rightarrow> (([], Some (LibError ''EOF'')), [])
                    | s # r' \<Rightarrow> ((replicate n s, None), r')),
     pem_Decode = (\<lambda>k. case k of [t, b] \<Rightarrow> if t = 45 then Some [b] else None | _ \<Rightarrow> None),
     x509_ParsePKIXPublicKey = (\<lambda>der. case der of
                      [b] \<Rightarrow> if b = 0 then Inr OtherPublicKey else Inr (RSAPublicKey b)
                    | _ \<Rightarrow> Inl (LibError ''x509: malformed key'')),
     x509_ParsePKCS1PrivateKey = (\<lambda>der. case der of
                      [b] \<Rightarrow> Inr b
                    | _ \<Rightarrow> Inl (LibError ''x509: malformed key'')),
     rsa_EncryptOAEP = (\<lambda>r pub msg. case r of
                      [] \<Rightarrow> (Inl (LibError ''EOF''), [])
                    | s # r' \<Rightarrow> (Inr (pub # s # msg), r')),
     rsa_DecryptOAEP = (\<lambda>priv w. case w of
                      p # s # msg \<Rightarrow>
                        if p = priv then Inr (Some msg)
                        else Inl (LibError ''crypto/rsa: decryption error'')
                    | _ \<Rightarrow> Inl (LibError ''crypto/rsa: decryption error'')),
     aes_NewCipher = (\<lambda>k. if length k = 16 \<or> length k = 24 \<or> length k = 32 then Inr k
                          else Inl (LibError ''crypto/aes: invalid key size'')),
     cipher_NewGCM = (\<lambda>blk. Inr blk),
     gcm_NonceSize = (\<lambda>g. 12),
     gcm_Seal = (\<lambda>g nonce p. Some (p @ toyTag g nonce p)),
     gcm_Open = toyOpen,
     md5_hex = map hexdigit\<rparr>"

text \<open>
  A reader in the manner of \<open>DefaultKeyReader\<close>: it ignores the name and returns the
  same key files, here the PEM of key 1 for both lookups.
\<close>

definition toyReader :: KeyReader where
  "toyReader =
     \<lparr>GetPublicKey = (\<lambda>name meta. Inr \<lparr>infoKey = [45, 1], infoMetadata = []\<rparr>),
      GetPrivateKey = (\<lambda>name meta. Inr \<lparr>infoKey = [45, 1], infoMetadata = []\<rparr>)\<rparr>"

definition toyMd0 :: MessageMetadata where
  "toyMd0 = \<lparr>EncryptionKeys = [], EncryptionParam = None\<rparr>"

definition toyEnv0 :: "bytes env" where
  "toyEnv0 = \<lparr>entropy = [1, 2, 3, 4, 5, 6], calls = []\<rparr>"

text \<open>The engine \<open>NewDefaultMessageCrypto\<close> returns in \<open>toyEnv0\<close>, and the environment after it.\<close>

definition toyEngine :: "bool \<Rightarrow> DefaultMessageCrypto" where
  "toyEngine keyGenNeeded = fst (fst (NewDefaultMessageCrypto toyLib ''ctx'' keyGenNeeded toyEnv0))"

definition toyEnv1 :: "bool \<Rightarrow> bytes env" where
  "toyEnv1 keyGenNeeded = snd (NewDefaultMessageCrypto toyLib ''ctx'' keyGenNeeded toyEnv0)"

text \<open>A ciphertext with its first byte changed.\<close>

definition tamper :: "slice \<Rightarrow> slice" where
  "tamper c = (case c of Some (b # bs) \<Rightarrow> Some ((b + 1) # bs) | _ \<Rightarrow> c)"


text \<open>
  Three runs of \<open>Encrypt\<close> for recipient \<open>R\<close>: two messages sealed one after the other
  by an engine with a generated key, and the call of an engine that has no data key.
\<close>

definition toySealed1 ::
  "(slice \<times> error option) \<times> MessageMetadata \<times> DefaultMessageCrypto \<times> bytes env" where
  "toySealed1 = Encrypt toyLib [''R''] (Some toyReader) toyMd0 (Some [7, 8])
                  (toyEngine True) (toyEnv1 True)"


definition toyUnsealable ::
  "(slice \<times> error option) \<times> MessageMetadata \<times> DefaultMessageCrypto \<times> bytes env" where
  "toyUnsealable = Encrypt toyLib [''R''] (Some toyReader) toyMd0 (Some [7, 8])
                     (toyEngine False) (toyEnv1 False)"

text \<open>
  A rotation: \<open>AddPublicKeyCipher\<close> for \<open>R\<close>, a message sealed for \<open>R\<close>, and a second
  \<open>AddPublicKeyCipher\<close>.
\<close>

definition toyAdded :: "error option \<times> DefaultMessageCrypto \<times> bytes env" where
  "toyAdded = AddPublicKeyCipher toyLib [''R''] (Some toyReader) (toyEngine True) (toyEnv1 True)"

definition toySealed3 ::
  "(slice \<times> error option) \<times> MessageMetadata \<times> DefaultMessageCrypto \<times> bytes env" where
  "toySealed3 = Encrypt toyLib [''R''] (Some toyReader) toyMd0 (Some [7, 8])
                  (fst (snd toyAdded)) (snd (snd toyAdded))"

definition toyRotated :: "error option \<times> DefaultMessageCrypto \<times> bytes env" where
  "toyRotated = AddPublicKeyCipher toyLib [''R''] (Some toyReader)
                  (fst (snd (snd toySealed3))) (snd (snd (snd toySealed3)))"

section \<open>Properties\<close>

lemmas toy_defs =
  toyLib_def toyReader_def toyOpen_def toyTag_def hexdigit_def toyMd0_def toyEnv0_def toyEngine_def
  toyEnv1_def tamper_def

lemmas engine_defs =
  NewDefaultMessageCrypto_def generateDataKey_def fill_def content_def logs_def called_def
  loadPublicKey_def loadPrivateKey_def addPublicKeyCipher_def NewEncryptionKeyInfo_def
  AddPublicKeyCipher_def RemoveKeyCipher_def encryptionKeysMap_def newEncryptionKey_def
  lazyWrap_def sealPayload_def Encrypt_def decryptData_def getKeyAndDecryptData_def
  keyMetaOf_def decryptDataKey_def fastPath_def Decrypt_def

subsection \<open>Decrypt on an envelope without keys\<close>

text \<open>
  C10. For every envelope whose encryption-key list is empty, \<open>Decrypt\<close> fails with
  the data-key decryption error, whatever the ciphertext, the reader and the engine's
  state are: the fast path finds nothing to try, the slow path unwraps nothing, and the
  payload is never passed through. The engine and the environment are left as they
  were.
\<close>

theorem Decrypt_empty_key_list:
  assumes "EncryptionKeys msgMetadata = []"
  shows "Decrypt L msgMetadata payload keyReader d env
           = Some ((None, Some ErrDataKeyDecryption), d, env)"
proof (cases "dataKey d")
  case None
  with assms show ?thesis
    by (simp add: Decrypt_def fastPath_def)
next
  case (Some k)
  with assms show ?thesis
    by (simp add: Decrypt_def fastPath_def getKeyAndDecryptData_def)
qed

theorem Decrypt_empty_key_list_witness:
  "EncryptionKeys toyMd0 = []
   \<and> Decrypt toyLib toyMd0 (Some [7, 8]) (Some toyReader) (toyEngine True) (toyEnv1 True)
       = Some ((None, Some ErrDataKeyDecryption), toyEngine True, toyEnv1 True)"
  using Decrypt_empty_key_list [of toyMd0 toyLib "Some [7, 8]" "Some toyReader" "toyEngine True" "toyEnv1 True"]
  by (simp add: toyMd0_def)

subsection \<open>Decrypt when every authenticated open fails\<close>

text \<open>
  C1. A message is sealed for one recipient by an engine with a generated key; its
  ciphertext is then changed in its first byte and handed, with the envelope, to a
  fresh engine whose reader holds the recipient's private key. The slow path unwraps
  the data key, the authenticated open fails, and \<open>Decrypt\<close> returns the nil slice
  together with the nil error: neither a plaintext nor an error.
\<close>

theorem Decrypt_tampered_returns_nil_nil:
  "(case Encrypt toyLib [''R''] (Some toyReader) toyMd0 (Some [7, 8]) (toyEngine True) (toyEnv1 True) of
      ((c, err), md, d1, e1) \<Rightarrow>
        (err, map_option fst (Decrypt toyLib md (tamper c) (Some toyReader) (toyEngine False) e1)))
   = (None, Some (None, None))"
  by (simp add: toy_defs engine_defs)

subsection \<open>AddPublicKeyCipher\<close>

lemma apc_fail:
  "addPublicKeyCipher L n kr d env = (Some e, d', env') \<Longrightarrow> d' = d"
  by (auto simp: addPublicKeyCipher_def Let_def
           split: option.splits if_splits sum.splits PublicKey.splits prod.splits)

lemma apc_ok:
  assumes "addPublicKeyCipher L n kr d env = (None, d', env')"
  shows "\<exists>entry. wrapsFor L kr n (content (dataKey d)) entry \<and>
           d' = d\<lparr>encryptedDataKeyMap := (encryptedDataKeyMap d)(n \<mapsto> entry)\<rparr>"
proof -
  from assms obtain k where kr: "kr = Some k" and n: "n \<noteq> []"
    by (auto simp: addPublicKeyCipher_def split: option.splits if_splits)
  from assms kr n obtain keyInfo where g: "GetPublicKey k n [] = Inr keyInfo"
    by (auto simp: addPublicKeyCipher_def Let_def split: sum.splits)
  from assms kr n g obtain pub where p: "loadPublicKey L (infoKey keyInfo) = Inr (RSAPublicKey pub)"
    by (auto simp: addPublicKeyCipher_def Let_def split: sum.splits PublicKey.splits)
  from assms kr n g p obtain w r' where
    e: "rsa_EncryptOAEP L (entropy (called (CallGetPublicKey n) env)) pub (content (dataKey d))
          = (Inr w, r')"
    and d': "d' = d\<lparr>encryptedDataKeyMap := (encryptedDataKeyMap d)
                      (n \<mapsto> NewEncryptionKeyInfo w (infoMetadata keyInfo))\<rparr>"
    by (auto simp: addPublicKeyCipher_def Let_def split: sum.splits prod.splits)
  from e have "rsa_EncryptOAEP L (entropy (called (CallGetPublicKey n) env)) pub (content (dataKey d))
          = (Inr (infoKey (NewEncryptionKeyInfo w (infoMetadata keyInfo))), r')"
    by (simp add: NewEncryptionKeyInfo_def)
  with kr n g p
  have "wrapsFor L kr n (content (dataKey d)) (NewEncryptionKeyInfo w (infoMetadata keyInfo))"
    unfolding wrapsFor_def by (fastforce simp: NewEncryptionKeyInfo_def)
  with d' show ?thesis by blast
qed

lemma addAll_append:
  "addAll L (pre @ post) kr d env =
     (case addAll L pre kr d env of
        (Some e, d', env') \<Rightarrow> (Some e, d', env')
      | (None, d', env') \<Rightarrow> addAll L post kr d' env')"
  by (induction pre arbitrary: d env) (auto split: prod.splits option.splits)

lemma addAll_frame:
  "addAll L names kr d env = (res, d', env') \<Longrightarrow>
     dataKey d' = dataKey d \<and> loadingCache d' = loadingCache d \<and> logger d' = logger d
     \<and> logCtx d' = logCtx d"
proof (induction names arbitrary: d env)
  case Nil
  then show ?case by simp
next
  case (Cons n ns)
  obtain r1 d1 e1 where a: "addPublicKeyCipher L n kr d env = (r1, d1, e1)"
    by (cases "addPublicKeyCipher L n kr d env") auto
  show ?case
  proof (cases r1)
    case None
    with a obtain entry where "d1 = d\<lparr>encryptedDataKeyMap := (encryptedDataKeyMap d)(n \<mapsto> entry)\<rparr>"
      using apc_ok by blast
    moreover from Cons.prems a None have "addAll L ns kr d1 e1 = (res, d', env')" by simp
    ultimately show ?thesis using Cons.IH by fastforce
  next
    case (Some e)
    with a Cons.prems have "d' = d1" by simp
    moreover from a Some have "d1 = d" using apc_fail by blast
    ultimately show ?thesis by simp
  qed
qed

lemma addAll_other:
  "addAll L names kr d env = (res, d', env') \<Longrightarrow> m \<notin> set names \<Longrightarrow>
     encryptedDataKeyMap d' m = encryptedDataKeyMap d m"
proof (induction names arbitrary: d env)
  case Nil
  then show ?case by simp
next
  case (Cons n ns)
  obtain r1 d1 e1 where a: "addPublicKeyCipher L n kr d env = (r1, d1, e1)"
    by (cases "addPublicKeyCipher L n kr d env") auto
  show ?case
  proof (cases r1)
    case None
    with a obtain entry where d1: "d1 = d\<lparr>encryptedDataKeyMap := (encryptedDataKeyMap d)(n \<mapsto> entry)\<rparr>"
      using apc_ok by blast
    from Cons.prems a None have "addAll L ns kr d1 e1 = (res, d', env')" by simp
    with Cons.IH Cons.prems(2) have "encryptedDataKeyMap d' m = encryptedDataKeyMap d1 m" by simp
    with d1 Cons.prems(2) show ?thesis by simp
  next
    case (Some e)
    with a Cons.prems have "d' = d1" by simp
    moreover from a Some have "d1 = d" using apc_fail by blast
    ultimately show ?thesis by simp
  qed
qed

lemma addAll_entries:
  "addAll L names kr d env = (None, d', env') \<Longrightarrow> m \<in> set names \<Longrightarrow>
     \<exists>entry. encryptedDataKeyMap d' m = Some entry \<and> wrapsFor L kr m (content (dataKey d)) entry"
proof (induction names arbitrary: d env)
  case Nil
  then show ?case by simp
next
  case (Cons n ns)
  obtain r1 d1 e1 where a: "addPublicKeyCipher L n kr d env = (r1, d1, e1)"
    by (cases "addPublicKeyCipher L n kr d env") auto
  with Cons.prems(1) have r1: "r1 = None" by (cases r1) auto
  with a obtain entry where w: "wrapsFor L kr n (content (dataKey d)) entry"
    and d1: "d1 = d\<lparr>encryptedDataKeyMap := (encryptedDataKeyMap d)(n \<mapsto> entry)\<rparr>"
    using apc_ok by blast
  from Cons.prems a r1 have rest: "addAll L ns kr d1 e1 = (None, d', env')" by simp
  show ?case
  proof (cases "m \<in> set ns")
    case True
    with Cons.IH rest d1 show ?thesis by fastforce
  next
    case False
    with Cons.prems(2) have "m = n" by simp
    moreover from rest False have "encryptedDataKeyMap d' m = encryptedDataKeyMap d1 m"
      using addAll_other by blast
    ultimately show ?thesis using d1 w by simp
  qed
qed

lemma fill_length: "length (fill n w) = n"
  by (simp add: fill_def)

lemma generateDataKey_length:
  "generateDataKey L env = ((key, err), env') \<Longrightarrow> length key = 32"
  by (auto simp: generateDataKey_def fill_length split: prod.splits)

text \<open>
  C6. When key generation succeeds, \<open>AddPublicKeyCipher\<close> leaves the engine with the
  freshly generated 32-byte key as its data key, whatever the names are and whether or
  not wrapping succeeds. If wrapping succeeds for the names \<open>pre\<close> and fails with \<open>e\<close>
  on the next name \<open>n\<close>, the call returns \<open>e\<close> and the engine is exactly the engine
  after \<open>pre\<close>: every name of \<open>pre\<close> has its entry, a wrapping of the new key, in the
  store (nothing is rolled back), and the names \<open>post\<close> after \<open>n\<close> have no effect.
\<close>

theorem AddPublicKeyCipher_rotates_without_rollback:
  assumes gen: "generateDataKey L env = ((key, None), env0)"
  shows "dataKey (fst (snd (AddPublicKeyCipher L names keyReader d env))) = Some key
         \<and> length key = 32
         \<and> (addAll L pre keyReader (d\<lparr>dataKey := Some key\<rparr>) env0 = (None, d1, env1) \<longrightarrow>
            addPublicKeyCipher L n keyReader d1 env1 = (Some e, d2, env2) \<longrightarrow>
              AddPublicKeyCipher L (pre @ n # post) keyReader d env = (Some e, d1, env2)
              \<and> dataKey d1 = Some key
              \<and> (\<forall>m\<in>set pre. \<exists>entry. encryptedDataKeyMap d1 m = Some entry
                                   \<and> wrapsFor L keyReader m key entry))"
proof (intro conjI impI)
  obtain r d' env' where a: "addAll L names keyReader (d\<lparr>dataKey := Some key\<rparr>) env0 = (r, d', env')"
    by (cases "addAll L names keyReader (d\<lparr>dataKey := Some key\<rparr>) env0") auto
  then have "dataKey d' = Some key" using addAll_frame by fastforce
  with a gen show "dataKey (fst (snd (AddPublicKeyCipher L names keyReader d env))) = Some key"
    by (simp add: AddPublicKeyCipher_def)
next
  from gen show "length key = 32" by (rule generateDataKey_length)
next
  assume pre: "addAll L pre keyReader (d\<lparr>dataKey := Some key\<rparr>) env0 = (None, d1, env1)"
    and n: "addPublicKeyCipher L n keyReader d1 env1 = (Some e, d2, env2)"
  from n have "d2 = d1" by (rule apc_fail)
  with gen pre n show "AddPublicKeyCipher L (pre @ n # post) keyReader d env = (Some e, d1, env2)"
    by (simp add: AddPublicKeyCipher_def addAll_append)
  from pre show "dataKey d1 = Some key" using addAll_frame by fastforce
  show "\<forall>m\<in>set pre. \<exists>entry. encryptedDataKeyMap d1 m = Some entry \<and> wrapsFor L keyReader m key entry"
  proof
    fix m assume "m \<in> set pre"
    with pre obtain entry where "encryptedDataKeyMap d1 m = Some entry"
      "wrapsFor L keyReader m (content (dataKey (d\<lparr>dataKey := Some key\<rparr>))) entry"
      using addAll_entries by blast
    then show "\<exists>entry. encryptedDataKeyMap d1 m = Some entry \<and> wrapsFor L keyReader m key entry"
      by (auto simp: content_def)
  qed
qed

theorem AddPublicKeyCipher_rotates_without_rollback_witness:
  "generateDataKey toyLib (toyEnv1 True)
     = ((replicate 32 2, None), \<lparr>entropy = [3, 4, 5, 6], calls = []\<rparr>)
   \<and> addAll toyLib [''A''] (Some toyReader) ((toyEngine True)\<lparr>dataKey := Some (replicate 32 2)\<rparr>)
        \<lparr>entropy = [3, 4, 5, 6], calls = []\<rparr>
     = (None,
        (toyEngine True)\<lparr>dataKey := Some (replicate 32 2),
          encryptedDataKeyMap := [''A'' \<mapsto> \<lparr>infoKey = 1 # 3 # replicate 32 2, infoMetadata = []\<rparr>]\<rparr>,
        \<lparr>entropy = [4, 5, 6], calls = [CallGetPublicKey ''A'']\<rparr>)
   \<and> AddPublicKeyCipher toyLib [''A'', [], ''C''] (Some toyReader) (toyEngine True) (toyEnv1 True)
     = (Some ErrEmptyKeyNameOrKeyReader,
        (toyEngine True)\<lparr>dataKey := Some (replicate 32 2),
          encryptedDataKeyMap := [''A'' \<mapsto> \<lparr>infoKey = 1 # 3 # replicate 32 2, infoMetadata = []\<rparr>]\<rparr>,
        \<lparr>entropy = [4, 5, 6], calls = [CallGetPublicKey ''A'']\<rparr>)
   \<and> wrapsFor toyLib (Some toyReader) ''A'' (replicate 32 2)
        \<lparr>infoKey = 1 # 3 # replicate 32 2, infoMetadata = []\<rparr>"
  using AddPublicKeyCipher_rotates_without_rollback
    [of toyLib "toyEnv1 True" "replicate 32 2" "\<lparr>entropy = [3, 4, 5, 6], calls = []\<rparr>"
        "[''A'', [], ''C'']" "Some toyReader" "toyEngine True" "[''A'']"
        "(toyEngine True)\<lparr>dataKey := Some (replicate 32 2),
          encryptedDataKeyMap := [''A'' \<mapsto> \<lparr>infoKey = 1 # 3 # replicate 32 2, infoMetadata = []\<rparr>]\<rparr>"
        "\<lparr>entropy = [4, 5, 6], calls = [CallGetPublicKey ''A'']\<rparr>"
        "[]" ErrEmptyKeyNameOrKeyReader
        "(toyEngine True)\<lparr>dataKey := Some (replicate 32 2),
          encryptedDataKeyMap := [''A'' \<mapsto> \<lparr>infoKey = 1 # 3 # replicate 32 2, infoMetadata = []\<rparr>]\<rparr>"
        "\<lparr>entropy = [4, 5, 6], calls = [CallGetPublicKey ''A'']\<rparr>"
        "[''C'']"]
  by (simp add: toy_defs engine_defs)

subsection \<open>The loop of Encrypt over the requested names\<close>

lemma lazyWrap_cases:
  assumes "lazyWrap L n kr d env = (d1, env1)"
  shows "(encryptedDataKeyMap d n \<noteq> None \<and> d1 = d \<and> env1 = env)
       \<or> (encryptedDataKeyMap d n = None \<and> (\<exists>e. d1 = logs (LogError e) d))
       \<or> (encryptedDataKeyMap d n = None \<and>
            (\<exists>entry. wrapsFor L kr n (content (dataKey d)) entry \<and>
               d1 = d\<lparr>encryptedDataKeyMap := (encryptedDataKeyMap d)(n \<mapsto> entry)\<rparr>))"
proof (cases "encryptedDataKeyMap d n")
  case (Some x)
  with assms show ?thesis by (simp add: lazyWrap_def)
next
  case None
  obtain r d2 e2 where a: "addPublicKeyCipher L n kr d env = (r, d2, e2)"
    by (cases "addPublicKeyCipher L n kr d env") auto
  show ?thesis
  proof (cases r)
    case (Some e)
    with a have "d2 = d" using apc_fail by blast
    with assms None a Some show ?thesis by (auto simp: lazyWrap_def)
  next
    case rn: None
    with a obtain entry where "wrapsFor L kr n (content (dataKey d)) entry"
      "d2 = d\<lparr>encryptedDataKeyMap := (encryptedDataKeyMap d)(n \<mapsto> entry)\<rparr>"
      using apc_ok by blast
    with assms None a rn show ?thesis by (auto simp: lazyWrap_def)
  qed
qed

lemma lazyWrap_frame:
  assumes "lazyWrap L n kr d env = (d1, env1)"
  shows "dataKey d1 = dataKey d \<and> loadingCache d1 = loadingCache d \<and> logCtx d1 = logCtx d"
  using lazyWrap_cases [OF assms] by (auto simp: logs_def)

lemma lazyWrap_store:
  assumes "lazyWrap L n kr d env = (d1, env1)"
  shows "(encryptedDataKeyMap d x = Some entry \<longrightarrow> encryptedDataKeyMap d1 x = Some entry)
       \<and> (encryptedDataKeyMap d x = None \<longrightarrow> encryptedDataKeyMap d1 x = Some entry \<longrightarrow>
            x = n \<and> wrapsFor L kr x (content (dataKey d)) entry)"
  using lazyWrap_cases [OF assms] by (auto simp: logs_def split: if_splits)


lemma encryptKeys_frame:
  "encryptKeys L names kr m keys d env = (res, keys', d', env') \<Longrightarrow>
     dataKey d' = dataKey d \<and> loadingCache d' = loadingCache d \<and> logCtx d' = logCtx d"
proof (induction names arbitrary: keys d env)
  case Nil
  then show ?case by simp
next
  case (Cons n ns)
  obtain d1 env1 where lw: "lazyWrap L n kr d env = (d1, env1)"
    by (cases "lazyWrap L n kr d env") auto
  note fr = lazyWrap_frame [OF lw]
  show ?case
  proof (cases "encryptedDataKeyMap d1 n")
    case None
    with Cons.prems lw fr show ?thesis by (auto simp: logs_def)
  next
    case (Some keyInfo)
    with Cons.prems lw obtain keys1 where
      "encryptKeys L ns kr m keys1 d1 env1 = (res, keys', d', env')"
      by simp
    from Cons.IH [OF this] fr show ?thesis by simp
  qed
qed

lemma encryptKeys_store:
  "encryptKeys L names kr m keys d env = (res, keys', d', env') \<Longrightarrow>
     (encryptedDataKeyMap d x = Some entry \<longrightarrow> encryptedDataKeyMap d' x = Some entry)
     \<and> (encryptedDataKeyMap d x = None \<longrightarrow> encryptedDataKeyMap d' x = Some entry \<longrightarrow>
          x \<in> set names \<and> wrapsFor L kr x (content (dataKey d)) entry)"
proof (induction names arbitrary: keys d env entry)
  case Nil
  then show ?case by auto
next
  case (Cons n ns)
  obtain d1 env1 where lw: "lazyWrap L n kr d env = (d1, env1)"
    by (cases "lazyWrap L n kr d env") auto
  note fr = lazyWrap_frame [OF lw]
  show ?case
  proof (cases "encryptedDataKeyMap d1 n")
    case None
    with Cons.prems lw have "d' = logs (LogError (ErrEncryptedDataKeyNotFound (logCtx d1) n)) d1"
      by auto
    with lazyWrap_store [OF lw, of x entry] show ?thesis by (auto simp: logs_def)
  next
    case (Some keyInfo)
    with Cons.prems lw obtain keys1 where
      rest: "encryptKeys L ns kr m keys1 d1 env1 = (res, keys', d', env')"
      by simp
    show ?thesis
    proof (cases "encryptedDataKeyMap d1 x")
      case None
      have "encryptedDataKeyMap d x = None"
      proof (cases "encryptedDataKeyMap d x")
        case (Some e0)
        with lazyWrap_store [OF lw, of x e0] None show ?thesis by simp
      qed simp
      with Cons.IH [OF rest, of entry] None fr show ?thesis by auto
    next
      case s1: (Some e1)
      from Cons.IH [OF rest, of e1] s1 have d': "encryptedDataKeyMap d' x = Some e1" by simp
      show ?thesis
      proof (cases "encryptedDataKeyMap d x")
        case None
        with lazyWrap_store [OF lw, of x e1] s1 d' show ?thesis by auto
      next
        case (Some e0)
        with lazyWrap_store [OF lw, of x e0] s1 d' show ?thesis by auto
      qed
    qed
  qed
qed



lemma sealPayload_frame:
  "sealPayload L md payload d env = ((c, err), md', d', env') \<Longrightarrow>
     dataKey d' = dataKey d \<and> loadingCache d' = loadingCache d
     \<and> encryptedDataKeyMap d' = encryptedDataKeyMap d
     \<and> EncryptionKeys md' = EncryptionKeys md
     \<and> (err \<noteq> None \<longrightarrow> c = None \<and> md' = md)"
  by (auto simp: sealPayload_def logs_def split: sum.splits prod.splits option.splits)


subsection \<open>Encrypt when a recipient cannot be wrapped\<close>




subsection \<open>Encrypt failing after the merge\<close>

text \<open>
  C4, as the code has it. When \<open>Encrypt\<close> returns an error it returns the nil slice,
  and the nonce field of the metadata and the data key of the engine are what they
  were before the call. The key list is not preserved: when the loop over the names
  completed with the merged list \<open>keys\<close>, so that the failure is that of the cipher
  construction or of the nonce generation, the metadata already holds \<open>keys\<close> (line 222
  runs before the cipher is built).
\<close>

theorem Encrypt_failure_keeps_nonce_and_data_key:
  assumes enc: "Encrypt L encKeys kr md payload d env = ((c, Some err), md', d', env')"
  shows "c = None \<and> EncryptionParam md' = EncryptionParam md \<and> dataKey d' = dataKey d
         \<and> (encryptKeys L encKeys kr (encryptionKeysMap (EncryptionKeys md))
               (EncryptionKeys md) d env = (None, keys, d1, env1)
             \<longrightarrow> EncryptionKeys md' = keys)"
proof -
  from enc have ne: "encKeys \<noteq> []" by (auto simp: Encrypt_def)
  obtain res ks d2 env2 where loop:
    "encryptKeys L encKeys kr (encryptionKeysMap (EncryptionKeys md)) (EncryptionKeys md) d env
       = (res, ks, d2, env2)"
    by (metis prod_cases4)
  note fr = encryptKeys_frame [OF loop]
  show ?thesis
  proof (cases res)
    case None
    with enc ne loop have seal:
      "sealPayload L (md\<lparr>EncryptionKeys := ks\<rparr>) payload d2 env2 = ((c, Some err), md', d', env')"
      by (simp add: Encrypt_def)
    from sealPayload_frame [OF seal] fr loop None show ?thesis by auto
  next
    case (Some e)
    with enc ne loop fr show ?thesis by (auto simp: Encrypt_def)
  qed
qed

theorem Encrypt_failure_keeps_nonce_and_data_key_witness:
  "let X = Encrypt toyLib [''R''] (Some toyReader) toyMd0 (Some [7, 8])
             (toyEngine True) \<lparr>entropy = [2], calls = []\<rparr>
   in fst X = (None, Some ErrGeneratingNonce)
      \<and> EncryptionParam (fst (snd X)) = EncryptionParam toyMd0
      \<and> dataKey (fst (snd (snd X))) = dataKey (toyEngine True)
      \<and> EncryptionKeys (fst (snd X))
          = [\<lparr>Key = ''R'', Value = 1 # 2 # replicate 32 1, Metadata = []\<rparr>]"
proof -
  let ?X = "Encrypt toyLib [''R''] (Some toyReader) toyMd0 (Some [7, 8])
              (toyEngine True) \<lparr>entropy = [2], calls = []\<rparr>"
  let ?Y = "encryptKeys toyLib [''R''] (Some toyReader) (encryptionKeysMap (EncryptionKeys toyMd0))
              (EncryptionKeys toyMd0) (toyEngine True) \<lparr>entropy = [2], calls = []\<rparr>"
  note t = Encrypt_failure_keeps_nonce_and_data_key
    [where L = toyLib and encKeys = "[''R'']" and kr = "Some toyReader" and md = toyMd0
       and payload = "Some [7, 8]" and d = "toyEngine True"
       and env = "\<lparr>entropy = [2], calls = []\<rparr>"
       and c = "fst (fst ?X)" and err = ErrGeneratingNonce and md' = "fst (snd ?X)"
       and d' = "fst (snd (snd ?X))" and env' = "snd (snd (snd ?X))"
       and keys = "fst (snd ?Y)" and ?d1.0 = "fst (snd (snd ?Y))" and ?env1.0 = "snd (snd (snd ?Y))"]
  show ?thesis
    using t by (simp add: toy_defs engine_defs)
qed

text \<open>
  The claim as stated fails: when the entropy runs out at the nonce, \<open>Encrypt\<close> fails
  with the nonce error and the key list of the metadata, empty before the call, holds
  the entry of the recipient.
\<close>

theorem Encrypt_nonce_failure_counterexample:
  "(case Encrypt toyLib [''R''] (Some toyReader) toyMd0 (Some [7, 8])
           (toyEngine True) \<lparr>entropy = [2], calls = []\<rparr> of
      ((c, err), md, d1, e1) \<Rightarrow> (err, EncryptionKeys toyMd0, EncryptionKeys md))
   = (Some ErrGeneratingNonce, [],
      [\<lparr>Key = ''R'', Value = 1 # 2 # replicate 32 1, Metadata = []\<rparr>])"
  by (simp add: toy_defs engine_defs)

subsection \<open>Encrypt on an engine without a data key\<close>



subsection \<open>The functions of Decrypt\<close>

lemma sameButLog_refl: "sameButLog d d"
  by (simp add: sameButLog_def)

lemma sameButLog_logs: "sameButLog (logs e d) d"
  by (simp add: sameButLog_def logs_def)

lemma sameButLog_trans: "sameButLog d2 d1 \<Longrightarrow> sameButLog d1 d \<Longrightarrow> sameButLog d2 d"
  by (simp add: sameButLog_def)

lemma decryptData_frame:
  "decryptData L key md payload d = Some (r, d') \<Longrightarrow>
     openWith L key md payload = Some r \<and> sameButLog d' d"
  by (auto simp: decryptData_def openWith_def sameButLog_logs sameButLog_refl
           split: sum.splits option.splits)

lemma decryptData_panic:
  "decryptData L key md payload d = None \<longleftrightarrow> openWith L key md payload = None"
  by (auto simp: decryptData_def openWith_def split: sum.splits option.splits)

lemma openWith_error_nil:
  "openWith L key md payload = Some (data, Some err) \<Longrightarrow> data = None"
  by (auto simp: openWith_def split: sum.splits option.splits)

lemma tryKeys_frame:
  "tryKeys L ks md payload d = Some (r, d') \<Longrightarrow> sameButLog d' d \<and> snd r = None"
proof (induction ks arbitrary: d)
  case Nil
  then show ?case by (auto simp: sameButLog_refl)
next
  case (Cons k ks)
  show ?case
  proof (cases "loadingCache d (md5_hex L (Value k))")
    case None
    with Cons.prems have "tryKeys L ks md payload (logs (LogDebug debugNotInCache) d) = Some (r, d')"
      by simp
    from Cons.IH [OF this] show ?thesis
      using sameButLog_logs sameButLog_trans by blast
  next
    case (Some key)
    with Cons.prems obtain data err d1 where
      dd: "decryptData L (content key) md payload d = Some ((data, err), d1)"
      by (cases "decryptData L (content key) md payload d") auto
    note f1 = decryptData_frame [OF dd]
    let ?d2 = "case err of None \<Rightarrow> d1 | Some e \<Rightarrow> logs (LogError e) d1"
    have f2: "sameButLog ?d2 d"
      using f1 by (cases err) (auto simp: sameButLog_def logs_def)
    show ?thesis
    proof (cases data)
      case None
      with Cons.prems Some dd have "tryKeys L ks md payload ?d2 = Some (r, d')"
        by (cases err) auto
      from Cons.IH [OF this] f2 show ?thesis using sameButLog_trans by blast
    next
      case (Some x)
      with Cons.prems \<open>loadingCache d (md5_hex L (Value k)) = Some key\<close> dd
      have "r = (data, None)" "d' = ?d2" by (cases err; auto)+
      with f2 show ?thesis by simp
    qed
  qed
qed

lemma getKeyAndDecryptData_frame:
  "getKeyAndDecryptData L md payload d = Some (r, d') \<Longrightarrow> sameButLog d' d \<and> snd r = None"
  unfolding getKeyAndDecryptData_def by (rule tryKeys_frame)

lemma fastPath_frame:
  "fastPath L md payload d = Some (data, d') \<Longrightarrow> sameButLog d' d"
proof (cases "dataKey d")
  case None
  assume "fastPath L md payload d = Some (data, d')"
  with None show ?thesis by (simp add: fastPath_def sameButLog_refl)
next
  case (Some k)
  assume a: "fastPath L md payload d = Some (data, d')"
  with Some obtain r d1 where g: "getKeyAndDecryptData L md payload d = Some (r, d1)"
    by (cases "getKeyAndDecryptData L md payload d") (auto simp: fastPath_def)
  from getKeyAndDecryptData_frame [OF g] have "sameButLog d1 d" "snd r = None" by simp_all
  with a Some g show ?thesis by (cases r) (auto simp: fastPath_def)
qed

lemma decryptDataKey_unwrap:
  "\<exists>d' env'.
     decryptDataKey L (Key k) (Value k) (Metadata k) (Some kr) d env
       = Some (unwrapKey L kr k \<noteq> None, d', env')
     \<and> encryptedDataKeyMap d' = encryptedDataKeyMap d \<and> logCtx d' = logCtx d
     \<and> (case unwrapKey L kr k of
           None \<Rightarrow> dataKey d' = dataKey d \<and> loadingCache d' = loadingCache d
                   \<and> calls env' = calls env @ [CallGetPrivateKey (Key k)]
                      @ (case GetPrivateKey kr (Key k) (keyMetaOf (Metadata k)) of
                           Inl err \<Rightarrow> []
                         | Inr keyInfo \<Rightarrow>
                             (case loadPrivateKey L (infoKey keyInfo) of
                                Inr (RSAPrivateKey pk) \<Rightarrow> [CallDecryptOAEP (Value k)]
                              | _ \<Rightarrow> []))
         | Some s \<Rightarrow> dataKey d' = s
                   \<and> loadingCache d' = (loadingCache d)(md5_hex L (Value k) \<mapsto> s)
                   \<and> calls env' = calls env @ [CallGetPrivateKey (Key k), CallDecryptOAEP (Value k)])
     \<and> entropy env' = entropy env"
  by (auto simp: decryptDataKey_def unwrapKey_def Let_def logs_def called_def
           split: sum.splits PrivateKey.splits)

lemma openWith_decryptData:
  "openWith L key md payload = Some r \<Longrightarrow>
     \<exists>d'. decryptData L key md payload d = Some (r, d') \<and> sameButLog d' d"
  by (auto simp: decryptData_def openWith_def sameButLog_logs sameButLog_refl
           split: sum.splits option.splits)

lemma Encrypt_dataKey:
  "dataKey (fst (snd (snd (Encrypt L encKeys kr md payload d env)))) = dataKey d"
proof (cases "encKeys = []")
  case True
  then show ?thesis by (simp add: Encrypt_def)
next
  case False
  obtain res ks d2 env2 where loop:
    "encryptKeys L encKeys kr (encryptionKeysMap (EncryptionKeys md)) (EncryptionKeys md) d env
       = (res, ks, d2, env2)"
    by (metis prod_cases4)
  note fr = encryptKeys_frame [OF loop]
  show ?thesis
  proof (cases res)
    case None
    obtain c err md' d' env' where seal:
      "sealPayload L (md\<lparr>EncryptionKeys := ks\<rparr>) payload d2 env2 = ((c, err), md', d', env')"
      by (metis prod_cases4 surj_pair)
    from sealPayload_frame [OF seal] fr loop None seal False show ?thesis
      by (simp add: Encrypt_def)
  next
    case (Some e)
    with loop fr False show ?thesis by (simp add: Encrypt_def)
  qed
qed

lemma decryptDataKeys_dataKey:
  "decryptDataKeys L ks keyReader acc d env = Some (acc', d', env') \<Longrightarrow>
     dataKey d' = dataKey d
     \<or> (\<exists>kr k. keyReader = Some kr \<and> k \<in> set ks \<and> unwrapKey L kr k = Some (dataKey d'))"
proof (induction ks arbitrary: acc d env)
  case Nil
  then show ?case by simp
next
  case (Cons k ks)
  from Cons.prems obtain kr where kr: "keyReader = Some kr"
    by (cases keyReader) (auto simp: decryptDataKey_def)
  from decryptDataKey_unwrap [of L k kr d env] obtain d1 env1 where
    step: "decryptDataKey L (Key k) (Value k) (Metadata k) (Some kr) d env
             = Some (unwrapKey L kr k \<noteq> None, d1, env1)"
    and u: "case unwrapKey L kr k of None \<Rightarrow> dataKey d1 = dataKey d | Some s \<Rightarrow> dataKey d1 = s"
    by (cases "unwrapKey L kr k") auto
  from Cons.prems kr step obtain acc1 where
    rest: "decryptDataKeys L ks keyReader acc1 d1 env1 = Some (acc', d', env')"
    by (cases "unwrapKey L kr k") auto
  from Cons.IH [OF rest] kr u show ?case
    by (cases "unwrapKey L kr k") auto
qed

lemma Decrypt_dataKey:
  assumes "Decrypt L md payload keyReader d env = Some (res, d', env')"
  shows "dataKey d' = dataKey d
     \<or> (\<exists>kr k. keyReader = Some kr \<and> k \<in> set (EncryptionKeys md)
                 \<and> unwrapKey L kr k = Some (dataKey d'))"
proof -
  from assms obtain data d1 where fp: "fastPath L md payload d = Some (data, d1)"
    by (cases "fastPath L md payload d") (auto simp: Decrypt_def)
  from fastPath_frame [OF fp] have k1: "dataKey d1 = dataKey d" by (simp add: sameButLog_def)
  show ?thesis
  proof (cases data)
    case (Some x)
    with assms fp k1 show ?thesis by (auto simp: Decrypt_def)
  next
    case None
    with assms fp obtain acc d2 env2 where
      loop: "decryptDataKeys L (EncryptionKeys md) keyReader [] d1 env = Some (acc, d2, env2)"
      by (cases "decryptDataKeys L (EncryptionKeys md) keyReader [] d1 env")
         (auto simp: Decrypt_def)
    have "dataKey d' = dataKey d2"
    proof (cases "acc = []")
      case True
      with assms fp None loop show ?thesis by (simp add: Decrypt_def)
    next
      case False
      with assms fp None loop obtain r where
        "getKeyAndDecryptData L md payload d2 = Some (r, d')"
        by (cases "getKeyAndDecryptData L md payload d2") (auto simp: Decrypt_def)
      from getKeyAndDecryptData_frame [OF this] show ?thesis by (simp add: sameButLog_def)
    qed
    with decryptDataKeys_dataKey [OF loop] k1 show ?thesis by auto
  qed
qed

lemma NewDefaultMessageCrypto_keyLenOK:
  "keyLenOK (fst (fst (NewDefaultMessageCrypto L ctx keyGenNeeded env)))"
proof (cases keyGenNeeded)
  case False
  then show ?thesis by (simp add: NewDefaultMessageCrypto_def keyLenOK_def)
next
  case True
  obtain key err env' where g: "generateDataKey L env = ((key, err), env')"
    by (metis surj_pair)
  from generateDataKey_length [OF g] g True show ?thesis
    by (cases err) (simp_all add: NewDefaultMessageCrypto_def keyLenOK_def)
qed

lemma AddPublicKeyCipher_keyLenOK:
  assumes "keyLenOK d"
  shows "keyLenOK (fst (snd (AddPublicKeyCipher L keyNames keyReader d env)))"
proof -
  obtain key err env0 where g: "generateDataKey L env = ((key, err), env0)"
    by (metis surj_pair)
  show ?thesis
  proof (cases err)
    case (Some e)
    with g assms show ?thesis by (simp add: AddPublicKeyCipher_def)
  next
    case None
    obtain r d' env' where a:
      "addAll L keyNames keyReader (d\<lparr>dataKey := Some key\<rparr>) env0 = (r, d', env')"
      by (metis prod_cases3)
    from addAll_frame [OF a] generateDataKey_length [OF g] have "keyLenOK d'"
      by (simp add: keyLenOK_def)
    with g None a show ?thesis by (simp add: AddPublicKeyCipher_def)
  qed
qed

subsection \<open>The three sealed messages of the executable instance\<close>

lemma toySealed1_message:
  "fst toySealed1 = (Some ([7, 8] @ 15 # replicate 12 3 @ replicate 32 1), None)"
  "fst (snd toySealed1) =
     \<lparr>EncryptionKeys = [\<lparr>Key = ''R'', Value = 1 # 2 # replicate 32 1, Metadata = []\<rparr>],
      EncryptionParam = Some (replicate 12 3)\<rparr>"
  by (simp_all add: toySealed1_def toy_defs engine_defs)


lemma toyUnsealable_message:
  "fst toyUnsealable = (None, Some (LibError ''crypto/aes: invalid key size''))"
  "fst (snd toyUnsealable) =
     \<lparr>EncryptionKeys = [\<lparr>Key = ''R'', Value = [1, 1], Metadata = []\<rparr>],
      EncryptionParam = None\<rparr>"
  by (simp_all add: toyUnsealable_def toy_defs engine_defs)

subsection \<open>The length of the data key\<close>

text \<open>
  C5, as the code has it. The engine \<open>NewDefaultMessageCrypto\<close> returns satisfies the
  length invariant; \<open>AddPublicKeyCipher\<close> preserves it (the key it sets has 32 bytes);
  \<open>Encrypt\<close> and \<open>RemoveKeyCipher\<close> leave the data key alone. \<open>Decrypt\<close> leaves the
  data key as it was or sets it to the very slice the reader's private key unwraps
  from an entry of the envelope, without looking at its length: it preserves the
  invariant when every key unwrapped from the envelope has 32 bytes.
\<close>

theorem dataKey_length_by_operation:
  "keyLenOK (fst (fst (NewDefaultMessageCrypto L ctx keyGenNeeded env0)))
   \<and> (keyLenOK d \<longrightarrow> keyLenOK (fst (snd (AddPublicKeyCipher L keyNames keyReader d env))))
   \<and> dataKey (fst (snd (snd (Encrypt L encKeys keyReader md payload d env)))) = dataKey d
   \<and> dataKey (snd (RemoveKeyCipher keyName d)) = dataKey d
   \<and> (Decrypt L md payload keyReader d env = Some (res, d', env') \<longrightarrow>
        (dataKey d' = dataKey d
         \<or> (\<exists>kr k. keyReader = Some kr \<and> k \<in> set (EncryptionKeys md)
                    \<and> unwrapKey L kr k = Some (dataKey d')))
        \<and> (keyLenOK d \<longrightarrow>
             (\<forall>kr. keyReader = Some kr \<longrightarrow>
                (\<forall>k\<in>set (EncryptionKeys md).
                   case unwrapKey L kr k of Some (Some s) \<Rightarrow> length s = 32 | _ \<Rightarrow> True))
             \<longrightarrow> keyLenOK d'))"
proof (intro conjI impI)
  show "keyLenOK (fst (fst (NewDefaultMessageCrypto L ctx keyGenNeeded env0)))"
    by (rule NewDefaultMessageCrypto_keyLenOK)
  show "keyLenOK (fst (snd (AddPublicKeyCipher L keyNames keyReader d env)))" if "keyLenOK d"
    using that by (rule AddPublicKeyCipher_keyLenOK)
  show "dataKey (fst (snd (snd (Encrypt L encKeys keyReader md payload d env)))) = dataKey d"
    by (rule Encrypt_dataKey)
  show "dataKey (snd (RemoveKeyCipher keyName d)) = dataKey d"
    by (simp add: RemoveKeyCipher_def)
next
  assume dec: "Decrypt L md payload keyReader d env = Some (res, d', env')"
  then show adopt: "dataKey d' = dataKey d
     \<or> (\<exists>kr k. keyReader = Some kr \<and> k \<in> set (EncryptionKeys md)
                \<and> unwrapKey L kr k = Some (dataKey d'))"
    by (rule Decrypt_dataKey)
  assume ok: "keyLenOK d"
    and len: "\<forall>kr. keyReader = Some kr \<longrightarrow>
                (\<forall>k\<in>set (EncryptionKeys md).
                   case unwrapKey L kr k of Some (Some s) \<Rightarrow> length s = 32 | _ \<Rightarrow> True)"
  from adopt show "keyLenOK d'"
  proof
    assume "dataKey d' = dataKey d"
    with ok show ?thesis by (simp add: keyLenOK_def)
  next
    assume "\<exists>kr k. keyReader = Some kr \<and> k \<in> set (EncryptionKeys md)
                \<and> unwrapKey L kr k = Some (dataKey d')"
    then obtain kr k where "keyReader = Some kr" "k \<in> set (EncryptionKeys md)"
      "unwrapKey L kr k = Some (dataKey d')" by blast
    with len have "case Some (dataKey d') of Some (Some s) \<Rightarrow> length s = 32 | _ \<Rightarrow> True"
      by fastforce
    then show ?thesis by (cases "dataKey d'") (simp_all add: keyLenOK_def)
  qed
qed

theorem dataKey_length_by_operation_witness:
  "keyLenOK (toyEngine False)
   \<and> keyLenOK (fst (snd (AddPublicKeyCipher toyLib [''A''] (Some toyReader)
                          (toyEngine False) (toyEnv1 False))))
   \<and> unwrapKey toyLib toyReader \<lparr>Key = ''R'', Value = 1 # 2 # replicate 32 1, Metadata = []\<rparr>
       = Some (Some (replicate 32 1))
   \<and> map_option (\<lambda>(r, d', e'). (r, dataKey d', keyLenOK d'))
        (Decrypt toyLib (fst (snd toySealed1)) (fst (fst toySealed1)) (Some toyReader)
           (toyEngine False) (toyEnv1 False))
     = Some ((Some [7, 8], None), Some (replicate 32 1), True)"
proof -
  let ?Y = "Decrypt toyLib (fst (snd toySealed1)) (fst (fst toySealed1)) (Some toyReader)
              (toyEngine False) (toyEnv1 False)"
  note t = dataKey_length_by_operation
    [where L = toyLib and d = "toyEngine False" and env = "toyEnv1 False"
       and keyNames = "[''A'']" and keyReader = "Some toyReader"
       and md = "fst (snd toySealed1)" and payload = "fst (fst toySealed1)"
       and res = "fst (the ?Y)" and d' = "fst (snd (the ?Y))" and env' = "snd (snd (the ?Y))"]
  show ?thesis
    using t
    by (simp add: toySealed1_message)
       (simp add: toy_defs engine_defs keyLenOK_def unwrapKey_def)
qed

text \<open>
  The claim as stated fails at the decrypt-time adoption. The envelope is the one the
  engine without a data key wrote (its entry wraps the empty key); an engine with a
  generated 32-byte key decrypts it and is left with a data key that is present and
  empty.
\<close>

theorem Decrypt_adopts_short_key_counterexample:
  "keyLenOK (toyEngine True)
   \<and> map_option (\<lambda>(r, d', e'). (dataKey d', keyLenOK d'))
        (Decrypt toyLib (fst (snd toyUnsealable)) None (Some toyReader)
           (toyEngine True) (toyEnv1 True))
     = Some (Some [], False)"
  by (simp add: toyUnsealable_message)
     (simp add: toy_defs engine_defs keyLenOK_def)

subsection \<open>Two messages with the same wrapped key\<close>




subsection \<open>The envelope Encrypt writes\<close>

lemma fold_index_map:
  "fold (\<lambda>(i, encKey) m. m(Key encKey \<mapsto> i)) (enumerate n ks) m0 name = Some i \<Longrightarrow>
     m0 name = Some i \<or> (n \<le> i \<and> i < n + length ks \<and> Key (ks ! (i - n)) = name)"
proof (induction ks arbitrary: n m0)
  case Nil
  then show ?case by simp
next
  case (Cons k ks)
  from Cons.prems have
    "fold (\<lambda>(i, encKey) m. m(Key encKey \<mapsto> i)) (enumerate (Suc n) ks) (m0(Key k \<mapsto> n)) name
       = Some i" by (simp add: fun_upd_def)
  from Cons.IH [OF this] show ?case
  proof
    assume "(m0(Key k \<mapsto> n)) name = Some i"
    then show ?thesis by (auto split: if_splits)
  next
    assume a: "Suc n \<le> i \<and> i < Suc n + length ks \<and> Key (ks ! (i - Suc n)) = name"
    then have "i - n = Suc (i - Suc n)" by arith
    with a show ?thesis by auto
  qed
qed

lemma encryptionKeysMap_ok: "mapOK (encryptionKeysMap ks) ks"
  unfolding mapOK_def encryptionKeysMap_def
  using fold_index_map [of 0 ks Map.empty] by fastforce

lemma mapOK_update:
  "mapOK m keys \<Longrightarrow> m name = Some i \<Longrightarrow> Key nk = name \<Longrightarrow> mapOK m (keys[i := nk])"
  unfolding mapOK_def by (metis length_list_update nth_list_update_eq nth_list_update_neq)

lemma mapOK_append:
  assumes "mapOK m keys"
  shows "mapOK m (keys @ [nk])"
  unfolding mapOK_def
proof (intro allI impI)
  fix name i
  assume "m name = Some i"
  with assms have "i < length keys \<and> Key (keys ! i) = name" by (simp add: mapOK_def)
  then show "i < length (keys @ [nk]) \<and> Key ((keys @ [nk]) ! i) = name"
    by (simp add: nth_append)
qed

lemma set_update_keep:
  "k \<in> set keys \<Longrightarrow> k \<noteq> keys ! i \<Longrightarrow> k \<in> set (keys[i := x])"
  by (metis in_set_conv_nth length_list_update nth_list_update_neq)

lemma hasEntry_step:
  assumes ok: "mapOK m keys"
    and s: "encryptedDataKeyMap d1 a = Some keyInfo"
    and keys1: "keys1 = (case m a of Some i \<Rightarrow> keys[i := newEncryptionKey a keyInfo]
                          | None \<Rightarrow> keys @ [newEncryptionKey a keyInfo])"
  shows "mapOK m keys1 \<and> hasEntry keys1 d1 a
         \<and> (\<forall>n. hasEntry keys d1 n \<longrightarrow> hasEntry keys1 d1 n)"
proof (cases "m a")
  case None
  with keys1 have k: "keys1 = keys @ [newEncryptionKey a keyInfo]" by simp
  have "newEncryptionKey a keyInfo \<in> set keys1" unfolding k by simp
  with s have h: "hasEntry keys1 d1 a"
    unfolding hasEntry_def
    by (intro bexI [of _ "newEncryptionKey a keyInfo"]) (auto simp: newEncryptionKey_def)
  have "hasEntry keys1 d1 n" if "hasEntry keys d1 n" for n
    using that unfolding hasEntry_def k by auto
  with ok h show ?thesis unfolding k by (auto simp: mapOK_append)
next
  case (Some i)
  with keys1 have k: "keys1 = keys[i := newEncryptionKey a keyInfo]" by simp
  from ok Some have i: "i < length keys" "Key (keys ! i) = a" by (auto simp: mapOK_def)
  have m: "mapOK m keys1"
    unfolding k using ok Some by (rule mapOK_update) (simp add: newEncryptionKey_def)
  from i have "newEncryptionKey a keyInfo \<in> set keys1"
    unfolding k by (simp add: set_update_memI)
  with s have h: "hasEntry keys1 d1 a"
    unfolding hasEntry_def
    by (intro bexI [of _ "newEncryptionKey a keyInfo"]) (auto simp: newEncryptionKey_def)
  have "hasEntry keys1 d1 n" if n: "hasEntry keys d1 n" for n
  proof (cases "n = a")
    case True
    with h show ?thesis by simp
  next
    case False
    from n obtain x entry where x: "x \<in> set keys" "Key x = n"
      "encryptedDataKeyMap d1 n = Some entry" "Value x = infoKey entry"
      unfolding hasEntry_def by blast
    with False i have "x \<noteq> keys ! i" by auto
    with x(1) have "x \<in> set keys1" unfolding k by (rule set_update_keep)
    with x show ?thesis unfolding hasEntry_def by blast
  qed
  with m h show ?thesis by blast
qed

lemma lazyWrap_hasEntry:
  assumes lw: "lazyWrap L a kr d env = (d1, env1)" and h: "hasEntry keys d n"
  shows "hasEntry keys d1 n"
proof -
  from h obtain x entry where x: "x \<in> set keys" "Key x = n"
    "encryptedDataKeyMap d n = Some entry" "Value x = infoKey entry"
    unfolding hasEntry_def by blast
  from lazyWrap_store [OF lw, of n entry] x(3) have "encryptedDataKeyMap d1 n = Some entry"
    by simp
  with x show ?thesis unfolding hasEntry_def by blast
qed

lemma encryptKeys_entries:
  "encryptKeys L names kr m keys d env = (None, keys', d', env') \<Longrightarrow> mapOK m keys \<Longrightarrow>
     (\<forall>n\<in>D. hasEntry keys d n) \<Longrightarrow> (\<forall>n\<in>D \<union> set names. hasEntry keys' d' n)"
proof (induction names arbitrary: keys d env D)
  case Nil
  then show ?case by simp
next
  case (Cons a ns)
  obtain d1 env1 where lw: "lazyWrap L a kr d env = (d1, env1)"
    by (cases "lazyWrap L a kr d env") auto
  from Cons.prems(1) lw obtain keyInfo where s: "encryptedDataKeyMap d1 a = Some keyInfo"
    by (cases "encryptedDataKeyMap d1 a") auto
  define keys1 where "keys1 = (case m a of Some i \<Rightarrow> keys[i := newEncryptionKey a keyInfo]
                          | None \<Rightarrow> keys @ [newEncryptionKey a keyInfo])"
  from Cons.prems(1) lw s have
    rest: "encryptKeys L ns kr m keys1 d1 env1 = (None, keys', d', env')"
    by (simp add: keys1_def)
  note st = hasEntry_step [OF Cons.prems(2) s keys1_def]
  have "\<forall>n\<in>insert a D. hasEntry keys1 d1 n"
  proof
    fix n assume "n \<in> insert a D"
    then show "hasEntry keys1 d1 n"
    proof
      assume "n = a" with st show ?thesis by simp
    next
      assume "n \<in> D"
      with Cons.prems(3) have "hasEntry keys d n" by blast
      with lw have "hasEntry keys d1 n" by (rule lazyWrap_hasEntry)
      with st show ?thesis by blast
    qed
  qed
  from Cons.IH [OF rest _ this] st show ?case by auto
qed

lemma sealPayload_success:
  assumes "sealPayload L md payload d env = ((c, None), md', d', env')"
  shows "\<exists>blk g nonce.
           aes_NewCipher L (content (dataKey d)) = Inr blk \<and> cipher_NewGCM L blk = Inr g
           \<and> length nonce = gcm_NonceSize L g
           \<and> md' = md\<lparr>EncryptionParam := Some nonce\<rparr>
           \<and> c = gcm_Seal L g nonce (content payload) \<and> d' = d"
proof -
  from assms obtain blk where b: "aes_NewCipher L (content (dataKey d)) = Inr blk"
    by (auto simp: sealPayload_def split: sum.splits)
  from assms b obtain g where g: "cipher_NewGCM L blk = Inr g"
    by (auto simp: sealPayload_def split: sum.splits)
  obtain w err r' where r: "rand_Read L (entropy env) (gcm_NonceSize L g) = ((w, err), r')"
    by (metis surj_pair)
  from assms b g r have "err = None" by (cases err) (auto simp: sealPayload_def)
  with assms b g r have
    "md' = md\<lparr>EncryptionParam := Some (fill (gcm_NonceSize L g) w)\<rparr>"
    "c = gcm_Seal L g (fill (gcm_NonceSize L g) w) (content payload)" "d' = d"
    by (auto simp: sealPayload_def)
  with b g fill_length [of "gcm_NonceSize L g" w] show ?thesis by blast
qed

lemma Encrypt_success_shape:
  assumes enc: "Encrypt L encKeys kr md payload d env = ((c, None), md', d', env')"
    and R: "R \<in> set encKeys"
  shows "\<exists>kR entry blk g nonce.
           kR \<in> set (EncryptionKeys md') \<and> Key kR = R \<and> Value kR = infoKey entry
           \<and> encryptedDataKeyMap d' R = Some entry
           \<and> (encryptedDataKeyMap d R = None \<longrightarrow> wrapsFor L kr R (content (dataKey d)) entry)
           \<and> (\<forall>e0. encryptedDataKeyMap d R = Some e0 \<longrightarrow> entry = e0)
           \<and> aes_NewCipher L (content (dataKey d)) = Inr blk \<and> cipher_NewGCM L blk = Inr g
           \<and> length nonce = gcm_NonceSize L g
           \<and> EncryptionParam md' = Some nonce
           \<and> c = gcm_Seal L g nonce (content payload)"
proof -
  from R have ne: "encKeys \<noteq> []" by auto
  obtain res ks d2 env2 where loop:
    "encryptKeys L encKeys kr (encryptionKeysMap (EncryptionKeys md)) (EncryptionKeys md) d env
       = (res, ks, d2, env2)"
    by (metis prod_cases4)
  from enc ne loop have res: "res = None" by (cases res) (auto simp: Encrypt_def)
  with enc ne loop have seal:
    "sealPayload L (md\<lparr>EncryptionKeys := ks\<rparr>) payload d2 env2 = ((c, None), md', d', env')"
    by (simp add: Encrypt_def)
  from sealPayload_success [OF seal] obtain blk g nonce where sp:
    "aes_NewCipher L (content (dataKey d2)) = Inr blk" "cipher_NewGCM L blk = Inr g"
    "length nonce = gcm_NonceSize L g"
    "md' = md\<lparr>EncryptionKeys := ks, EncryptionParam := Some nonce\<rparr>"
    "c = gcm_Seal L g nonce (content payload)" "d' = d2"
    by auto
  note fr = encryptKeys_frame [OF loop]
  from loop res have "encryptKeys L encKeys kr (encryptionKeysMap (EncryptionKeys md))
       (EncryptionKeys md) d env = (None, ks, d2, env2)" by simp
  from encryptKeys_entries [OF this encryptionKeysMap_ok, of "{}"] R have "hasEntry ks d2 R"
    by simp
  then obtain kR entry where kR: "kR \<in> set ks" "Key kR = R"
    "encryptedDataKeyMap d2 R = Some entry" "Value kR = infoKey entry"
    unfolding hasEntry_def by blast
  note st = encryptKeys_store [OF loop, of R]
  have w: "encryptedDataKeyMap d R = None \<longrightarrow> wrapsFor L kr R (content (dataKey d)) entry"
    using st [of entry] kR(3) by simp
  have e0: "\<forall>e0. encryptedDataKeyMap d R = Some e0 \<longrightarrow> entry = e0"
    using st kR(3) by auto
  from kR sp fr w e0 show ?thesis by auto
qed

subsection \<open>Decrypt recovers what the envelope seals\<close>

lemma tryKeys_safe:
  assumes "\<forall>k\<in>set ks. case loadingCache d (md5_hex L (Value k)) of
                          None \<Rightarrow> True | Some key \<Rightarrow> opensSafely L md c p (content key)"
  shows "\<exists>data d'.
           tryKeys L ks md c d = Some ((data, None), d') \<and> sameButLog d' d
           \<and> (data = None \<or> content data = p)
           \<and> (data = None \<longrightarrow>
                (\<forall>k\<in>set ks. \<forall>key r. loadingCache d (md5_hex L (Value k)) = Some key \<longrightarrow>
                    openWith L (content key) md c = Some r \<longrightarrow> fst r = None))"
  using assms
proof (induction ks arbitrary: d)
  case Nil
  then show ?case by (simp add: sameButLog_refl)
next
  case (Cons k ks)
  show ?case
  proof (cases "loadingCache d (md5_hex L (Value k))")
    case None
    let ?d1 = "logs (LogDebug debugNotInCache) d"
    have c1: "loadingCache ?d1 = loadingCache d" by (simp add: logs_def)
    with Cons.prems have "\<forall>k\<in>set ks. case loadingCache ?d1 (md5_hex L (Value k)) of
                          None \<Rightarrow> True | Some key \<Rightarrow> opensSafely L md c p (content key)"
      by simp
    from Cons.IH [OF this] obtain data d' where
      r: "tryKeys L ks md c ?d1 = Some ((data, None), d')" "sameButLog d' ?d1"
         "data = None \<or> content data = p"
         "data = None \<longrightarrow>
                (\<forall>k\<in>set ks. \<forall>key r. loadingCache ?d1 (md5_hex L (Value k)) = Some key \<longrightarrow>
                    openWith L (content key) md c = Some r \<longrightarrow> fst r = None)"
      by blast
    from r(2) have "sameButLog d' d" by (simp add: sameButLog_def logs_def)
    with r None c1 show ?thesis by auto
  next
    case (Some key)
    with Cons.prems have "opensSafely L md c p (content key)" by simp
    then obtain data err where
      ow: "openWith L (content key) md c = Some (data, err)"
      and safe: "data = None \<or> content data = p"
      by (auto simp: opensSafely_def split: option.splits)
    from openWith_decryptData [OF ow, of d] obtain d1 where
      dd: "decryptData L (content key) md c d = Some ((data, err), d1)" and s1: "sameButLog d1 d"
      by blast
    let ?d2 = "case err of None \<Rightarrow> d1 | Some e \<Rightarrow> logs (LogError e) d1"
    from s1 have s2: "sameButLog ?d2 d" by (cases err) (auto simp: sameButLog_def logs_def)
    show ?thesis
    proof (cases data)
      case (Some x)
      with \<open>loadingCache d (md5_hex L (Value k)) = Some key\<close> dd
      have "tryKeys L (k # ks) md c d = Some ((data, None), ?d2)" by (cases err) auto
      with s2 safe Some show ?thesis by auto
    next
      case None
      from s2 have c2: "loadingCache ?d2 = loadingCache d" by (simp add: sameButLog_def)
      with Cons.prems have "\<forall>k\<in>set ks. case loadingCache ?d2 (md5_hex L (Value k)) of
                          None \<Rightarrow> True | Some key \<Rightarrow> opensSafely L md c p (content key)"
        by simp
      from Cons.IH [OF this] obtain data' d' where
        r: "tryKeys L ks md c ?d2 = Some ((data', None), d')" "sameButLog d' ?d2"
           "data' = None \<or> content data' = p"
           "data' = None \<longrightarrow>
                (\<forall>k\<in>set ks. \<forall>key r. loadingCache ?d2 (md5_hex L (Value k)) = Some key \<longrightarrow>
                    openWith L (content key) md c = Some r \<longrightarrow> fst r = None)"
        by blast
      from None \<open>loadingCache d (md5_hex L (Value k)) = Some key\<close> dd r(1)
      have t: "tryKeys L (k # ks) md c d = Some ((data', None), d')" by (cases err) auto
      from r(2) s2 have s: "sameButLog d' d" using sameButLog_trans by blast
      have "\<forall>k'\<in>set (k # ks). \<forall>key' r. loadingCache d (md5_hex L (Value k')) = Some key' \<longrightarrow>
                    openWith L (content key') md c = Some r \<longrightarrow> fst r = None"
        if "data' = None"
        using that r(4) c2 ow None \<open>loadingCache d (md5_hex L (Value k)) = Some key\<close> by auto
      with t s r(3) show ?thesis by blast
    qed
  qed
qed

lemma decryptDataKeys_run:
  "\<exists>acc' d' env'.
     decryptDataKeys L ks (Some kr) acc d env = Some (acc', d', env')
     \<and> (acc' = [] \<longleftrightarrow> acc = [] \<and> (\<forall>k\<in>set ks. unwrapKey L kr k = None))
     \<and> (\<forall>f. loadingCache d' f = loadingCache d f
            \<or> (\<exists>k\<in>set ks. md5_hex L (Value k) = f \<and> unwrapKey L kr k \<noteq> None
                           \<and> loadingCache d' f = unwrapKey L kr k))"
proof (induction ks arbitrary: acc d env)
  case Nil
  then show ?case by simp
next
  case (Cons k ks)
  from decryptDataKey_unwrap [of L k kr d env] obtain d1 env1 where
    step: "decryptDataKey L (Key k) (Value k) (Metadata k) (Some kr) d env
             = Some (unwrapKey L kr k \<noteq> None, d1, env1)"
    and u: "case unwrapKey L kr k of
              None \<Rightarrow> loadingCache d1 = loadingCache d
            | Some s \<Rightarrow> loadingCache d1 = (loadingCache d)(md5_hex L (Value k) \<mapsto> s)"
    by (cases "unwrapKey L kr k") auto
  let ?acc1 = "if unwrapKey L kr k \<noteq> None then acc @ [k] else acc"
  from Cons.IH [of ?acc1 d1 env1] obtain acc' d' env' where
    rest: "decryptDataKeys L ks (Some kr) ?acc1 d1 env1 = Some (acc', d', env')"
    and e: "acc' = [] \<longleftrightarrow> ?acc1 = [] \<and> (\<forall>k\<in>set ks. unwrapKey L kr k = None)"
    and c: "\<forall>f. loadingCache d' f = loadingCache d1 f
            \<or> (\<exists>k\<in>set ks. md5_hex L (Value k) = f \<and> unwrapKey L kr k \<noteq> None
                           \<and> loadingCache d' f = unwrapKey L kr k)"
    by blast
  from step rest have run:
    "decryptDataKeys L (k # ks) (Some kr) acc d env = Some (acc', d', env')"
    by (cases "unwrapKey L kr k") auto
  from e have e': "acc' = [] \<longleftrightarrow> acc = [] \<and> (\<forall>k\<in>set (k # ks). unwrapKey L kr k = None)"
    by (cases "unwrapKey L kr k") auto
  have c': "\<forall>f. loadingCache d' f = loadingCache d f
            \<or> (\<exists>k\<in>set (k # ks). md5_hex L (Value k) = f \<and> unwrapKey L kr k \<noteq> None
                           \<and> loadingCache d' f = unwrapKey L kr k)"
  proof
    fix f
    from c have "loadingCache d' f = loadingCache d1 f
            \<or> (\<exists>k\<in>set ks. md5_hex L (Value k) = f \<and> unwrapKey L kr k \<noteq> None
                           \<and> loadingCache d' f = unwrapKey L kr k)" by blast
    then show "loadingCache d' f = loadingCache d f
            \<or> (\<exists>k\<in>set (k # ks). md5_hex L (Value k) = f \<and> unwrapKey L kr k \<noteq> None
                           \<and> loadingCache d' f = unwrapKey L kr k)"
    proof
      assume a: "loadingCache d' f = loadingCache d1 f"
      show ?thesis
      proof (cases "unwrapKey L kr k")
        case None
        with u a show ?thesis by simp
      next
        case (Some s)
        with u a show ?thesis by (cases "md5_hex L (Value k) = f") auto
      qed
    next
      assume "\<exists>k\<in>set ks. md5_hex L (Value k) = f \<and> unwrapKey L kr k \<noteq> None
                           \<and> loadingCache d' f = unwrapKey L kr k"
      then show ?thesis by auto
    qed
  qed
  from run e' c' show ?case by blast
qed

lemma decryptDataKeys_keeps:
  assumes "decryptDataKeys L ks (Some kr) acc d env = Some (acc', d', env')"
    and "loadingCache d f = Some keyR"
    and "\<forall>k\<in>set ks. md5_hex L (Value k) = f \<longrightarrow> unwrapKey L kr k = Some keyR"
  shows "loadingCache d' f = Some keyR"
proof -
  from decryptDataKeys_run [of L ks kr acc d env] assms(1)
  have "loadingCache d' f = loadingCache d f
            \<or> (\<exists>k\<in>set ks. md5_hex L (Value k) = f \<and> unwrapKey L kr k \<noteq> None
                           \<and> loadingCache d' f = unwrapKey L kr k)"
    by auto
  with assms(2,3) show ?thesis by auto
qed

lemma decryptDataKeys_caches:
  "decryptDataKeys L ks (Some kr) acc d env = Some (acc', d', env') \<Longrightarrow> kR \<in> set ks \<Longrightarrow>
     \<forall>k\<in>set ks. md5_hex L (Value k) = md5_hex L (Value kR) \<longrightarrow> unwrapKey L kr k = Some keyR \<Longrightarrow>
     loadingCache d' (md5_hex L (Value kR)) = Some keyR"
proof (induction ks arbitrary: acc d env)
  case Nil
  then show ?case by simp
next
  case (Cons k ks)
  from decryptDataKey_unwrap [of L k kr d env] obtain d1 env1 where
    step: "decryptDataKey L (Key k) (Value k) (Metadata k) (Some kr) d env
             = Some (unwrapKey L kr k \<noteq> None, d1, env1)"
    and u: "case unwrapKey L kr k of
              None \<Rightarrow> loadingCache d1 = loadingCache d
            | Some s \<Rightarrow> loadingCache d1 = (loadingCache d)(md5_hex L (Value k) \<mapsto> s)"
    by (cases "unwrapKey L kr k") auto
  from Cons.prems(1) step obtain acc1 where
    rest: "decryptDataKeys L ks (Some kr) acc1 d1 env1 = Some (acc', d', env')"
    by (cases "unwrapKey L kr k") auto
  from Cons.prems(3) have all: "\<forall>k\<in>set ks. md5_hex L (Value k) = md5_hex L (Value kR)
                                  \<longrightarrow> unwrapKey L kr k = Some keyR" by simp
  show ?case
  proof (cases "md5_hex L (Value k) = md5_hex L (Value kR)")
    case True
    with Cons.prems(3) have "unwrapKey L kr k = Some keyR" by simp
    with u True have "loadingCache d1 (md5_hex L (Value kR)) = Some keyR" by simp
    from decryptDataKeys_keeps [OF rest this all] show ?thesis .
  next
    case False
    with Cons.prems(2) have "kR \<in> set ks" by auto
    from Cons.IH [OF rest this all] show ?thesis .
  qed
qed

lemma Decrypt_recovers:
  assumes safe: "keysOpenOnlyTo L kr d md c p"
    and agree: "fingerprintsAgree L kr md"
    and kR: "kR \<in> set (EncryptionKeys md)"
    and u: "unwrapKey L kr kR = Some keyR"
    and ow: "openWith L (content keyR) md c = Some (s, None)"
    and s: "content s = p"
  shows "\<exists>s' d' env'. Decrypt L md c (Some kr) d env = Some ((s', None), d', env')
                        \<and> content s' = p"
proof -
  let ?ks = "EncryptionKeys md"
  let ?safeCache = "\<lambda>d. \<forall>k\<in>set ?ks. case loadingCache d (md5_hex L (Value k)) of
                          None \<Rightarrow> True | Some key \<Rightarrow> opensSafely L md c p (content key)"
  from safe have sc: "?safeCache d" and su: "\<forall>k\<in>set ?ks. case unwrapKey L kr k of
              None \<Rightarrow> True | Some key \<Rightarrow> opensSafely L md c p (content key)"
    by (simp_all add: keysOpenOnlyTo_def)
  \<comment> \<open>the fast path\<close>
  have "\<exists>data dF. fastPath L md c d = Some (data, dF) \<and> sameButLog dF d
           \<and> (data = None \<or> content data = p)"
  proof (cases "dataKey d")
    case None
    then show ?thesis by (simp add: fastPath_def sameButLog_refl)
  next
    case (Some x)
    from tryKeys_safe [OF sc] obtain data d' where
      "tryKeys L ?ks md c d = Some ((data, None), d')" "sameButLog d' d"
      "data = None \<or> content data = p" by blast
    with Some show ?thesis by (simp add: fastPath_def getKeyAndDecryptData_def)
  qed
  then obtain data dF where fp: "fastPath L md c d = Some (data, dF)"
    and sF: "sameButLog dF d" and dataF: "data = None \<or> content data = p" by blast
  show ?thesis
  proof (cases data)
    case (Some x)
    with fp dataF show ?thesis by (simp add: Decrypt_def)
  next
    case None
    \<comment> \<open>the slow path\<close>
    from decryptDataKeys_run [of L ?ks kr "[]" dF env] obtain acc d2 env2 where
      loop: "decryptDataKeys L ?ks (Some kr) [] dF env = Some (acc, d2, env2)"
      and e: "acc = [] \<longleftrightarrow> (\<forall>k\<in>set ?ks. unwrapKey L kr k = None)"
      and c: "\<forall>f. loadingCache d2 f = loadingCache dF f
            \<or> (\<exists>k\<in>set ?ks. md5_hex L (Value k) = f \<and> unwrapKey L kr k \<noteq> None
                           \<and> loadingCache d2 f = unwrapKey L kr k)"
      by auto
    have acc: "acc \<noteq> []"
    proof
      assume "acc = []"
      with e have "\<forall>k\<in>set ?ks. unwrapKey L kr k = None" by simp
      with kR u show False by simp
    qed
    from sF have cF: "loadingCache dF = loadingCache d" by (simp add: sameButLog_def)
    have sc2: "?safeCache d2"
    proof
      fix k assume k: "k \<in> set ?ks"
      from c have "loadingCache d2 (md5_hex L (Value k)) = loadingCache dF (md5_hex L (Value k))
            \<or> (\<exists>k'\<in>set ?ks. md5_hex L (Value k') = md5_hex L (Value k)
                   \<and> unwrapKey L kr k' \<noteq> None
                   \<and> loadingCache d2 (md5_hex L (Value k)) = unwrapKey L kr k')"
        by blast
      then show "case loadingCache d2 (md5_hex L (Value k)) of
                   None \<Rightarrow> True | Some key \<Rightarrow> opensSafely L md c p (content key)"
      proof
        assume "loadingCache d2 (md5_hex L (Value k)) = loadingCache dF (md5_hex L (Value k))"
        with cF sc k show ?thesis by simp
      next
        assume "\<exists>k'\<in>set ?ks. md5_hex L (Value k') = md5_hex L (Value k)
                   \<and> unwrapKey L kr k' \<noteq> None
                   \<and> loadingCache d2 (md5_hex L (Value k)) = unwrapKey L kr k'"
        then obtain k' where k': "k' \<in> set ?ks"
          "loadingCache d2 (md5_hex L (Value k)) = unwrapKey L kr k'" by blast
        from su k'(1) have "case unwrapKey L kr k' of
              None \<Rightarrow> True | Some key \<Rightarrow> opensSafely L md c p (content key)" by blast
        with k'(2) show ?thesis by simp
      qed
    qed
    have "\<forall>k\<in>set ?ks. md5_hex L (Value k) = md5_hex L (Value kR)
                            \<longrightarrow> unwrapKey L kr k = Some keyR"
    proof (intro ballI impI)
      fix k assume "k \<in> set ?ks" "md5_hex L (Value k) = md5_hex L (Value kR)"
      with agree kR have "unwrapKey L kr k = unwrapKey L kr kR"
        unfolding fingerprintsAgree_def by blast
      with u show "unwrapKey L kr k = Some keyR" by simp
    qed
    from decryptDataKeys_caches [OF loop kR this]
    have hit: "loadingCache d2 (md5_hex L (Value kR)) = Some keyR" .
    from tryKeys_safe [OF sc2] obtain data' d3 where
      t: "tryKeys L ?ks md c d2 = Some ((data', None), d3)"
      and data': "data' = None \<or> content data' = p"
      and none: "data' = None \<longrightarrow>
                (\<forall>k\<in>set ?ks. \<forall>key r. loadingCache d2 (md5_hex L (Value k)) = Some key \<longrightarrow>
                    openWith L (content key) md c = Some r \<longrightarrow> fst r = None)"
      by blast
    from fp None loop acc t
    have dec: "Decrypt L md c (Some kr) d env = Some ((data', None), d3, env2)"
      by (simp add: Decrypt_def getKeyAndDecryptData_def)
    have "content data' = p"
    proof (cases data')
      case (Some x)
      with data' show ?thesis by simp
    next
      case None
      with none have "\<forall>k\<in>set ?ks. \<forall>key r.
          loadingCache d2 (md5_hex L (Value k)) = Some key \<longrightarrow>
          openWith L (content key) md c = Some r \<longrightarrow> fst r = None" by simp
      from this [rule_format, OF kR hit ow] have "s = None" by simp
      with s None show ?thesis by (simp add: content_def)
    qed
    with dec show ?thesis by blast
  qed
qed

lemma wrapsFor_unwraps:
  assumes w: "wrapsFor L keyReader R msg entry" and p: "privateKeyOf L keyReader R priv"
  shows "\<exists>s. rsa_DecryptOAEP L priv (infoKey entry) = Inr s \<and> content s = msg"
proof -
  from w obtain kr keyInfo pub r r' where
    "keyReader = Some kr" "GetPublicKey kr R [] = Inr keyInfo"
    "loadPublicKey L (infoKey keyInfo) = Inr (RSAPublicKey pub)"
    and e: "rsa_EncryptOAEP L r pub msg = (Inr (infoKey entry), r')"
    unfolding wrapsFor_def by blast
  with p have "validPair L pub priv" unfolding privateKeyOf_def by blast
  with e show ?thesis unfolding validPair_def by blast
qed

lemma sealed_opens:
  assumes gcm: "gcmCorrect L"
    and blk: "aes_NewCipher L key = Inr blk" and g: "cipher_NewGCM L blk = Inr g"
    and n: "length nonce = gcm_NonceSize L g"
    and md: "EncryptionParam md = Some nonce"
  shows "\<exists>s. openWith L key md (gcm_Seal L g nonce p) = Some (s, None) \<and> content s = p"
proof -
  from gcm n obtain s where
    "gcm_Open L g nonce (content (gcm_Seal L g nonce p)) = Some (Inr s)" "content s = p"
    unfolding gcmCorrect_def by blast
  with blk g md show ?thesis by (simp add: openWith_def content_def)
qed

lemma round_trip_core:
  assumes enc: "Encrypt L encKeys keyReader md payload d env = ((c, None), md', d', env')"
    and R: "R \<in> set encKeys"
    and stored: "storedKeyCurrent L priv d R"
    and pair: "privateKeyOf L keyReader R priv"
    and priv: "suppliesPrivateKey L kr priv"
    and gcm: "gcmCorrect L"
    and safe: "keysOpenOnlyTo L kr dd md' c (content payload)"
    and agree: "fingerprintsAgree L kr md'"
  shows "\<exists>s dd' envd'. Decrypt L md' c (Some kr) dd envd = Some ((s, None), dd', envd')
                         \<and> content s = content payload"
proof -
  from Encrypt_success_shape [OF enc R] obtain kR entry blk g nonce where
    kR: "kR \<in> set (EncryptionKeys md')" "Value kR = infoKey entry"
    and "Key kR = R" and "encryptedDataKeyMap d' R = Some entry"
    and fresh: "encryptedDataKeyMap d R = None \<longrightarrow> wrapsFor L keyReader R (content (dataKey d)) entry"
    and old: "\<forall>e0. encryptedDataKeyMap d R = Some e0 \<longrightarrow> entry = e0"
    and blk: "aes_NewCipher L (content (dataKey d)) = Inr blk" and g: "cipher_NewGCM L blk = Inr g"
    and n: "length nonce = gcm_NonceSize L g"
    and nonce: "EncryptionParam md' = Some nonce"
    and c: "c = gcm_Seal L g nonce (content payload)"
    by (elim exE conjE) (erule (10) that)
  have "\<exists>s. rsa_DecryptOAEP L priv (infoKey entry) = Inr s \<and> content s = content (dataKey d)"
  proof (cases "encryptedDataKeyMap d R")
    case None
    with fresh have w: "wrapsFor L keyReader R (content (dataKey d)) entry" by simp
    from wrapsFor_unwraps [OF w pair] show ?thesis .
  next
    case (Some e0)
    with old have "encryptedDataKeyMap d R = Some entry" by simp
    with stored show ?thesis by (simp add: storedKeyCurrent_def)
  qed
  then obtain keyR where dk: "rsa_DecryptOAEP L priv (infoKey entry) = Inr keyR"
    and ck: "content keyR = content (dataKey d)" by blast
  from priv obtain privInfo where
    "GetPrivateKey kr (Key kR) (keyMetaOf (Metadata kR)) = Inr privInfo"
    "loadPrivateKey L (infoKey privInfo) = Inr (RSAPrivateKey priv)"
    unfolding suppliesPrivateKey_def by blast
  with dk kR(2) have u: "unwrapKey L kr kR = Some keyR" by (simp add: unwrapKey_def)
  from blk ck have blk': "aes_NewCipher L (content keyR) = Inr blk" by simp
  from sealed_opens [OF gcm blk' g n nonce, of "content payload"] c obtain s where
    ow: "openWith L (content keyR) md' c = Some (s, None)" and s: "content s = content payload"
    by blast
  from Decrypt_recovers [OF safe agree kR(1) u ow s] show ?thesis .
qed

lemma AddPublicKeyCipher_success:
  assumes "AddPublicKeyCipher L names keyReader d env = (None, d1, env1)"
  shows "\<exists>key env0. generateDataKey L env = ((key, None), env0)
           \<and> addAll L names keyReader (d\<lparr>dataKey := Some key\<rparr>) env0 = (None, d1, env1)
           \<and> dataKey d1 = Some key"
proof -
  obtain key err env0 where g: "generateDataKey L env = ((key, err), env0)"
    by (metis surj_pair)
  with assms have e: "err = None" by (cases err) (auto simp: AddPublicKeyCipher_def)
  with g assms have a: "addAll L names keyReader (d\<lparr>dataKey := Some key\<rparr>) env0 = (None, d1, env1)"
    by (simp add: AddPublicKeyCipher_def)
  from addAll_frame [OF a] have "dataKey d1 = Some key" by simp
  with g e a show ?thesis by blast
qed

lemma AddPublicKeyCipher_stores_current:
  assumes add: "AddPublicKeyCipher L names keyReader d env = (None, d1, env1)"
    and R: "R \<in> set names"
    and pair: "privateKeyOf L keyReader R priv"
  shows "storedKeyCurrent L priv d1 R"
proof -
  from AddPublicKeyCipher_success [OF add] obtain key env0 where
    a: "addAll L names keyReader (d\<lparr>dataKey := Some key\<rparr>) env0 = (None, d1, env1)"
    and k: "dataKey d1 = Some key" by blast
  from addAll_entries [OF a R] obtain entry where
    e: "encryptedDataKeyMap d1 R = Some entry" and w: "wrapsFor L keyReader R key entry"
    by (auto simp: content_def)
  from wrapsFor_unwraps [OF w pair] k e show ?thesis
    by (simp add: storedKeyCurrent_def content_def)
qed

lemma AddPublicKeyCipher_rotated:
  assumes "generateDataKey L env = ((key, None), env0)"
    and "AddPublicKeyCipher L names keyReader d env = (r, d', env')"
  shows "dataKey d' = Some key"
proof -
  obtain r1 d1 e1 where a: "addAll L names keyReader (d\<lparr>dataKey := Some key\<rparr>) env0 = (r1, d1, e1)"
    by (metis prod_cases3)
  from addAll_frame [OF a] have "dataKey d1 = Some key" by simp
  with assms a show ?thesis by (simp add: AddPublicKeyCipher_def)
qed

subsection \<open>The executable instance satisfies the assumptions\<close>

lemma toy_validPair: "validPair toyLib b b"
  by (auto simp: validPair_def toyLib_def content_def split: list.splits)

lemma toy_gcmCorrect: "gcmCorrect toyLib"
  by (simp add: gcmCorrect_def toyLib_def toyOpen_def toyTag_def content_def Let_def)

lemma toy_privateKeyOf: "privateKeyOf toyLib (Some toyReader) R 1"
  by (simp add: privateKeyOf_def toyReader_def loadPublicKey_def toyLib_def toy_validPair [unfolded toyLib_def])

lemma toy_suppliesPrivateKey: "suppliesPrivateKey toyLib toyReader 1"
  by (simp add: suppliesPrivateKey_def toyReader_def loadPrivateKey_def toyLib_def)


lemma toyAdded_result:
  "fst toyAdded = None"
  "snd (snd toyAdded) = \<lparr>entropy = [4, 5, 6], calls = [CallGetPublicKey ''R'']\<rparr>"
  by (simp_all add: toyAdded_def toy_defs engine_defs)

lemma toySealed3_message:
  "fst toySealed3 = (Some ([7, 8] @ 15 # replicate 12 4 @ replicate 32 2), None)"
  "fst (snd toySealed3) =
     \<lparr>EncryptionKeys = [\<lparr>Key = ''R'', Value = 1 # 3 # replicate 32 2, Metadata = []\<rparr>],
      EncryptionParam = Some (replicate 12 4)\<rparr>"
  "snd (snd (snd toySealed3)) = \<lparr>entropy = [5, 6], calls = [CallGetPublicKey ''R'']\<rparr>"
  by (simp_all add: toySealed3_def toyAdded_def toy_defs engine_defs)

lemma toyRotated_cache: "loadingCache (fst (snd toyRotated)) = Map.empty"
  by (simp add: toyRotated_def toySealed3_def toyAdded_def toy_defs engine_defs)

subsection \<open>Round trip\<close>



subsection \<open>Rotation\<close>

text \<open>
  C7. \<open>AddPublicKeyCipher\<close> succeeds for names that contain \<open>R\<close>; a message is sealed for
  recipients that contain \<open>R\<close>; a second \<open>AddPublicKeyCipher\<close> then generates the key
  \<open>key3\<close>. Under the assumptions of the round trip on keys, library and message, the
  engine's data key after the second call is \<open>key3\<close>, and \<open>Decrypt\<close> of the earlier
  message on that engine returns the bytes of its payload, and does so whatever value
  \<open>k\<close> the engine's data-key field is given: the key that opens the message is the one
  unwrapped from the envelope or found in the cache under its fingerprint.
\<close>

theorem Decrypt_after_rotation:
  assumes add: "AddPublicKeyCipher L names1 keyReader d0 env0 = (None, d1, env1)"
    and R1: "R \<in> set names1"
    and enc: "Encrypt L encKeys keyReader md payload d1 env1 = ((c, None), md', d2, env2)"
    and R: "R \<in> set encKeys"
    and gen: "generateDataKey L env2 = ((key3, None), envg)"
    and rot: "AddPublicKeyCipher L names2 keyReader2 d2 env2 = (r3, d3, env3)"
    and pair: "privateKeyOf L keyReader R priv"
    and priv: "suppliesPrivateKey L kr priv"
    and gcm: "gcmCorrect L"
    and safe: "keysOpenOnlyTo L kr d3 md' c (content payload)"
    and agree: "fingerprintsAgree L kr md'"
  shows "dataKey d3 = Some key3
         \<and> (\<forall>k. \<exists>s d4 env4.
                Decrypt L md' c (Some kr) (d3\<lparr>dataKey := k\<rparr>) env3 = Some ((s, None), d4, env4)
                \<and> content s = content payload)"
proof (intro conjI allI)
  from gen rot show "dataKey d3 = Some key3" by (rule AddPublicKeyCipher_rotated)
next
  fix k
  from add R1 pair have stored: "storedKeyCurrent L priv d1 R"
    by (rule AddPublicKeyCipher_stores_current)
  from safe have "keysOpenOnlyTo L kr (d3\<lparr>dataKey := k\<rparr>) md' c (content payload)"
    by (simp add: keysOpenOnlyTo_def)
  from round_trip_core [OF enc R stored pair priv gcm this agree]
  show "\<exists>s d4 env4.
          Decrypt L md' c (Some kr) (d3\<lparr>dataKey := k\<rparr>) env3 = Some ((s, None), d4, env4)
          \<and> content s = content payload" .
qed

theorem Decrypt_after_rotation_witness:
  "AddPublicKeyCipher toyLib [''R''] (Some toyReader) (toyEngine True) (toyEnv1 True)
     = (None, fst (snd toyAdded), snd (snd toyAdded))
   \<and> Encrypt toyLib [''R''] (Some toyReader) toyMd0 (Some [7, 8])
       (fst (snd toyAdded)) (snd (snd toyAdded))
     = ((fst (fst toySealed3), None), fst (snd toySealed3),
        fst (snd (snd toySealed3)), snd (snd (snd toySealed3)))
   \<and> generateDataKey toyLib (snd (snd (snd toySealed3)))
     = ((replicate 32 5, None), \<lparr>entropy = [6], calls = [CallGetPublicKey ''R'']\<rparr>)
   \<and> AddPublicKeyCipher toyLib [''R''] (Some toyReader)
       (fst (snd (snd toySealed3))) (snd (snd (snd toySealed3)))
     = (fst toyRotated, fst (snd toyRotated), snd (snd toyRotated))
   \<and> privateKeyOf toyLib (Some toyReader) ''R'' 1
   \<and> suppliesPrivateKey toyLib toyReader 1
   \<and> gcmCorrect toyLib
   \<and> keysOpenOnlyTo toyLib toyReader (fst (snd toyRotated)) (fst (snd toySealed3))
        (fst (fst toySealed3)) [7, 8]
   \<and> fingerprintsAgree toyLib toyReader (fst (snd toySealed3))
   \<and> dataKey (fst (snd toyRotated)) = Some (replicate 32 5)
   \<and> (\<exists>s d4 env4.
         Decrypt toyLib (fst (snd toySealed3)) (fst (fst toySealed3)) (Some toyReader)
           (fst (snd toyRotated)) (snd (snd toyRotated)) = Some ((s, None), d4, env4)
         \<and> content s = [7, 8])"
proof -
  have add: "AddPublicKeyCipher toyLib [''R''] (Some toyReader) (toyEngine True) (toyEnv1 True)
     = (None, fst (snd toyAdded), snd (snd toyAdded))"
    using toyAdded_result(1) by (simp add: toyAdded_def prod_eq_iff)
  have enc: "Encrypt toyLib [''R''] (Some toyReader) toyMd0 (Some [7, 8])
       (fst (snd toyAdded)) (snd (snd toyAdded))
     = ((fst (fst toySealed3), None), fst (snd toySealed3),
        fst (snd (snd toySealed3)), snd (snd (snd toySealed3)))"
    using toySealed3_message(1) by (simp add: toySealed3_def prod_eq_iff)
  have gen: "generateDataKey toyLib (snd (snd (snd toySealed3)))
     = ((replicate 32 5, None), \<lparr>entropy = [6], calls = [CallGetPublicKey ''R'']\<rparr>)"
    by (simp add: toySealed3_message) (simp add: toy_defs engine_defs)
  have rot: "AddPublicKeyCipher toyLib [''R''] (Some toyReader)
       (fst (snd (snd toySealed3))) (snd (snd (snd toySealed3)))
     = (fst toyRotated, fst (snd toyRotated), snd (snd toyRotated))"
    by (simp add: toyRotated_def)
  have R: "''R'' \<in> set [''R'']" by simp
  have safe: "keysOpenOnlyTo toyLib toyReader (fst (snd toyRotated)) (fst (snd toySealed3))
        (fst (fst toySealed3)) (content (Some [7, 8]))"
    by (simp add: keysOpenOnlyTo_def toySealed3_message toyRotated_cache)
       (simp add: opensSafely_def openWith_def unwrapKey_def toy_defs engine_defs)
  have agree: "fingerprintsAgree toyLib toyReader (fst (snd toySealed3))"
    by (simp add: fingerprintsAgree_def toySealed3_message)
  note t = Decrypt_after_rotation
    [OF add R enc R gen rot toy_privateKeyOf toy_suppliesPrivateKey toy_gcmCorrect safe agree]
  from t have key: "dataKey (fst (snd toyRotated)) = Some (replicate 32 5)" by simp
  from t [THEN conjunct2, THEN spec, of "dataKey (fst (snd toyRotated))"]
  have dec: "\<exists>s d4 env4.
         Decrypt toyLib (fst (snd toySealed3)) (fst (fst toySealed3)) (Some toyReader)
           (fst (snd toyRotated)) (snd (snd toyRotated)) = Some ((s, None), d4, env4)
         \<and> content s = [7, 8]"
    by (simp add: content_def)
  from add enc gen rot toy_privateKeyOf toy_suppliesPrivateKey toy_gcmCorrect safe agree key dec
  show ?thesis by (simp add: content_def)
qed

end
